theory Spec2Isabelle
  imports Complex_Main "HOL-Library.Multiset"
begin

section \<open>Cells, agents and the grid\<close>

text \<open>
  A \<open>Cell\<close> object is created once per coordinate pair by \<open>Grid.initialize\<close> and is
  never copied, so the identity of a cell is its \<open>loc\<close> tuple \<open>(x, y)\<close>: a reference to a
  cell is modelled by that pair, and Python's \<open>==\<close> / \<open>!=\<close> on cells (object identity) by
  equality of pairs. The mutable fields of the cells are kept field by field in the grid:
  \<open>adjacent\<close> and \<open>occupant\<close> map a cell to the value of that field.

  Agents are heap objects that several lists and cells point to. A reference to an agent
  is a name (in the scenarios below the first field of the agent's row, such as \<open>A1\<close>) and
  \<open>agents\<close> is the store that maps a reference to the object's fields. The class of the object (\<open>TypeA\<close> .. \<open>TypeD\<close>) decides which method a call
  dispatches to and which \<open>symbol\<close> string the constructor has stored.
\<close>

type_synonym loc = "int \<times> int"

type_synonym aref = string

datatype kind = TypeA | TypeB | TypeC | TypeD

datatype error = IndexError | AttributeError | UnboundLocalError

fun symbol :: "kind \<Rightarrow> string" where
  "symbol TypeA = ''A''"
| "symbol TypeB = ''B''"
| "symbol TypeC = ''C''"
| "symbol TypeD = ''D''"

text \<open>\<open>Cell.symbol\<close> is set to \<open>"X"\<close> by the constructor and never assigned again.\<close>

definition Cell_symbol :: "loc \<Rightarrow> string" where
  "Cell_symbol c = ''X''"

record Agent =
  klass :: kind
  cell :: loc
  end_cell :: loc
  moves :: "(loc \<times> loc) list"
  moved :: bool
  move_count :: int

record Grid =
  grid :: "loc list list"
  width :: int
  height :: int
  adjacent :: "loc \<Rightarrow> loc list"
  occupant :: "loc \<Rightarrow> aref option"
  agents :: "aref \<Rightarrow> Agent"
  playerAs :: "aref list"
  playerBs :: "aref list"
  playerCs :: "aref list"
  playerDs :: "aref list"
  finishedAs :: "aref list"
  finishedBs :: "aref list"
  finishedCs :: "aref list"
  turn :: int

definition MAX_C_MOVES :: int where
  "MAX_C_MOVES = 40"

subsection \<open>Distances and the straight-line direction\<close>

text \<open>
  \<open>math.sqrt\<close> and the float division are taken over the reals. Both functions get the
  two \<open>loc\<close> tuples of the cells they are called with. The code uses the roots only to
  order cells by distance and the quotients only for their signs. The sums of squares are
  exact integers, and below \<open>2 ^ 52\<close> (coordinates up to \<open>2 ^ 25\<close>) \<open>math.sqrt\<close> gives
  different integers different doubles, in their order, so that the real roots order the
  cells as the doubles do. On larger grids two distances can round to the same double, and
  the stable sort then keeps the earlier cell where the real roots would tell them apart.
\<close>

definition snap :: "real \<Rightarrow> int" where
  "snap v = (if v > 0 then 1 else if v < 0 then - 1 else 0)"

definition shortest_path :: "loc \<Rightarrow> loc \<Rightarrow> loc" where
  "shortest_path a b =
     (if a = b then a
      else
        let vec0 = fst b - fst a;
            vec1 = snd b - snd a;
            nrm = sqrt (real_of_int (vec0 * vec0 + vec1 * vec1))
        in (fst a + snap (real_of_int vec0 / nrm), snd a + snap (real_of_int vec1 / nrm)))"

definition norm_cells :: "loc \<Rightarrow> loc \<Rightarrow> real" where
  "norm_cells a b =
     (let vec0 = fst b - fst a;
          vec1 = snd b - snd a
      in sqrt (real_of_int (vec0 * vec0 + vec1 * vec1)))"

subsection \<open>Building the grid\<close>

text \<open>
  Python list indexing: an index from \<open>-len\<close> to \<open>-1\<close> counts from the end, anything else
  out of range raises \<open>IndexError\<close> (here \<open>None\<close>).
\<close>

definition py_index :: "'a list \<Rightarrow> int \<Rightarrow> 'a option" where
  "py_index xs i =
     (let n = int (length xs)
      in if 0 \<le> i \<and> i < n then Some (xs ! nat i)
         else if - n \<le> i \<and> i < 0 then Some (xs ! nat (n + i))
         else None)"

definition Grid_init :: "int \<Rightarrow> int \<Rightarrow> Grid" where
  "Grid_init w h =
     \<lparr> grid = [], width = w, height = h,
       adjacent = (\<lambda>c. []), occupant = (\<lambda>c. None), agents = (\<lambda>a. undefined),
       playerAs = [], playerBs = [], playerCs = [], playerDs = [],
       finishedAs = [], finishedBs = [], finishedCs = [], turn = 0 \<rparr>"

text \<open>The first loop of \<open>initialize\<close>: row \<open>s\<close> holds the cells \<open>Cell(r, s)\<close>.\<close>

definition make_cells :: "int \<Rightarrow> int \<Rightarrow> loc list list" where
  "make_cells w h = map (\<lambda>s. map (\<lambda>r. (r, s)) [0..w - 1]) [0..h - 1]"

text \<open>
  The \<open>try\<close> block inside the loops over \<open>delta_i\<close> and \<open>delta_j\<close>, for the cell
  \<open>grid[r][s]\<close>: a negative index raises \<open>IndexError\<close> by hand, one past the end raises it
  in the lookup, and the handler skips the neighbour (the empty list); otherwise the cell
  found is appended.
\<close>

definition try_adjacent :: "loc list list \<Rightarrow> int \<Rightarrow> int \<Rightarrow> loc list" where
  "try_adjacent cells x y =
     (if x < 0 \<or> y < 0 then []
      else (case py_index cells x of
              None \<Rightarrow> []
            | Some row \<Rightarrow> (case py_index row y of None \<Rightarrow> [] | Some adj \<Rightarrow> [adj])))"

definition link_cell :: "loc list list \<Rightarrow> int \<Rightarrow> int \<Rightarrow> loc list" where
  "link_cell cells r s =
     concat (map (\<lambda>delta_i. concat (map (\<lambda>delta_j.
       try_adjacent cells (r + delta_i) (s + delta_j)) [- 1, 0, 1])) [- 1, 0, 1])"

definition initialize :: "Grid \<Rightarrow> Grid" where
  "initialize g =
     (let cells = make_cells (width g) (height g)
      in g\<lparr> grid := cells,
            adjacent := (\<lambda>c. if 0 \<le> snd c \<and> snd c < height g \<and> 0 \<le> fst c \<and> fst c < width g
                              then link_cell cells (snd c) (fst c) else []) \<rparr>)"

definition in_grid :: "Grid \<Rightarrow> loc \<Rightarrow> bool" where
  "in_grid g c = (0 \<le> fst c \<and> fst c < width g \<and> 0 \<le> snd c \<and> snd c < height g)"

definition chebyshev :: "loc \<Rightarrow> loc \<Rightarrow> int" where
  "chebyshev a b = max \<bar>fst b - fst a\<bar> \<bar>snd b - snd a\<bar>"

text \<open>The nine candidate coordinates in the order the loops of \<open>initialize\<close> visit them.\<close>

definition moore9 :: "loc \<Rightarrow> loc list" where
  "moore9 c =
     [(fst c - 1, snd c - 1), (fst c, snd c - 1), (fst c + 1, snd c - 1),
      (fst c - 1, snd c), (fst c, snd c), (fst c + 1, snd c),
      (fst c - 1, snd c + 1), (fst c, snd c + 1), (fst c + 1, snd c + 1)]"

section \<open>The agents' methods\<close>

subsection \<open>Assignments to fields\<close>

text \<open>
  Each function is one assignment of the source: \<open>a.cell = c\<close>, \<open>c.occupant = v\<close>,
  \<open>a.moved = b\<close>, \<open>a.moves.append(m)\<close> and \<open>a.move_count += 1\<close>. A method body is the
  sequence of its assignments, so aliasing between \<open>self\<close>, a swap partner and their
  cells is resolved by the order of the updates, as in the source.
\<close>

definition set_cell :: "aref \<Rightarrow> loc \<Rightarrow> Grid \<Rightarrow> Grid" where
  "set_cell a c g = g\<lparr>agents := (agents g)(a := (agents g a)\<lparr>cell := c\<rparr>)\<rparr>"

definition set_occupant :: "loc \<Rightarrow> aref option \<Rightarrow> Grid \<Rightarrow> Grid" where
  "set_occupant c v g = g\<lparr>occupant := (occupant g)(c := v)\<rparr>"

definition set_moved :: "aref \<Rightarrow> bool \<Rightarrow> Grid \<Rightarrow> Grid" where
  "set_moved a b g = g\<lparr>agents := (agents g)(a := (agents g a)\<lparr>moved := b\<rparr>)\<rparr>"

definition append_move :: "aref \<Rightarrow> loc \<times> loc \<Rightarrow> Grid \<Rightarrow> Grid" where
  "append_move a m g = g\<lparr>agents := (agents g)(a := (agents g a)\<lparr>moves := moves (agents g a) @ [m]\<rparr>)\<rparr>"

definition incr_move_count :: "aref \<Rightarrow> Grid \<Rightarrow> Grid" where
  "incr_move_count a g =
     g\<lparr>agents := (agents g)(a := (agents g a)\<lparr>move_count := move_count (agents g a) + 1\<rparr>)\<rparr>"

text \<open>
  The constructors \<open>TypeA(start, end, id, grid)\<close> .. \<open>TypeD(start, end, grid)\<close>, for the
  object at reference \<open>r\<close>, followed by the \<open>append\<close> to the pool of its class that
  \<open>populate\<close> does right after.
\<close>

definition new_agent :: "aref \<Rightarrow> kind \<Rightarrow> loc \<Rightarrow> loc \<Rightarrow> Grid \<Rightarrow> Grid" where
  "new_agent r k start end_loc g =
     (let g1 = g\<lparr>agents := (agents g)(r :=
                  \<lparr>klass = k, cell = start, end_cell = end_loc, moves = [], moved = False,
                   move_count = 0\<rparr>)\<rparr>;
          g2 = set_occupant start (Some r) g1
      in case k of
           TypeA \<Rightarrow> g2\<lparr>playerAs := playerAs g2 @ [r]\<rparr>
         | TypeB \<Rightarrow> g2\<lparr>playerBs := playerBs g2 @ [r]\<rparr>
         | TypeC \<Rightarrow> g2\<lparr>playerCs := playerCs g2 @ [r]\<rparr>
         | TypeD \<Rightarrow> g2\<lparr>playerDs := playerDs g2 @ [r]\<rparr>)"

text \<open>
  \<open>populate\<close>, for rows that \<open>csv.reader\<close> has split and \<open>int\<close> has converted: a row is
  the tag \<open>row[0]\<close> and the four numbers \<open>int(row[1])\<close> .. \<open>int(row[4])\<close>. Each row comes
  with the reference of the object its constructor call creates. \<open>self.grid[y][x]\<close> raises
  \<open>IndexError\<close> out of range, and so does \<open>row[0][0]\<close> on an empty tag. A tag that starts
  with none of \<open>A\<close>, \<open>B\<close>, \<open>D\<close> makes a Tourist; an obstacle gets its start cell as
  destination.
\<close>

type_synonym row = "string \<times> int \<times> int \<times> int \<times> int"

definition grid_at :: "Grid \<Rightarrow> int \<Rightarrow> int \<Rightarrow> error + loc" where
  "grid_at g y x =
     (case py_index (grid g) y of
        None \<Rightarrow> Inl IndexError
      | Some cells \<Rightarrow> (case py_index cells x of None \<Rightarrow> Inl IndexError | Some c \<Rightarrow> Inr c))"

definition populate_row :: "aref \<Rightarrow> row \<Rightarrow> Grid \<Rightarrow> error + Grid" where
  "populate_row r rw g =
     (case rw of (tag, x1, y1, x2, y2) \<Rightarrow>
        (case grid_at g y1 x1 of
           Inl err \<Rightarrow> Inl err
         | Inr s \<Rightarrow>
             (case grid_at g y2 x2 of
                Inl err \<Rightarrow> Inl err
              | Inr e \<Rightarrow>
                  (case tag of
                     [] \<Rightarrow> Inl IndexError
                   | ch # rest \<Rightarrow>
                       if ch = CHR ''A'' then Inr (new_agent r TypeA s e g)
                       else if ch = CHR ''B'' then Inr (new_agent r TypeB s e g)
                       else if ch = CHR ''D'' then Inr (new_agent r TypeD s s g)
                       else Inr (new_agent r TypeC s e g)))))"

fun populate :: "(aref \<times> row) list \<Rightarrow> Grid \<Rightarrow> error + Grid" where
  "populate [] g = Inr g"
| "populate ((r, rw) # rest) g =
     (case populate_row r rw g of Inl err \<Rightarrow> Inl err | Inr g' \<Rightarrow> populate rest g')"

subsection \<open>Moving into a cell\<close>

text \<open>
  The four lines that \<open>TypeA.move\<close>, \<open>TypeB.move\<close> (free cell), \<open>TypeC.move1\<close> and
  \<open>TypeC.move2\<close> share:
  \<^verbatim>\<open>prev = self.cell; self.cell = cell; prev.occupant = None; self.cell.occupant = self\<close>
\<close>

definition step_to :: "aref \<Rightarrow> loc \<Rightarrow> Grid \<Rightarrow> Grid" where
  "step_to self c g =
     (let prev = cell (agents g self);
          g1 = set_cell self c g;
          g2 = set_occupant prev None g1
      in set_occupant (cell (agents g2 self)) (Some self) g2)"

text \<open>
  The loop that pairs every choice with its distance to the destination and the stable
  \<open>sorted(choice_pair, key=lambda x: x[1])\<close> after it.
\<close>

definition rank_choices :: "loc \<Rightarrow> loc list \<Rightarrow> (loc \<times> real) list" where
  "rank_choices des choices =
     sort_key snd
       (map (\<lambda>k. let vec0 = fst des - fst k; vec1 = snd des - snd k
                 in (k, sqrt (real_of_int (vec0 * vec0 + vec1 * vec1)))) choices)"

subsection \<open>TypeA, the Mover\<close>

definition TypeA_move :: "aref \<Rightarrow> Grid \<Rightarrow> Grid" where
  "TypeA_move self g =
     (if \<not> moved (agents g self) then
        let start = cell (agents g self);
            choices = filter (\<lambda>j. occupant g j = None \<and> j \<noteq> cell (agents g self)
                                   \<and> Cell_symbol j \<noteq> ''D'')
                        (adjacent g (cell (agents g self)));
            choice_pair = rank_choices (end_cell (agents g self)) choices;
            g1 = (if length choice_pair > 0 then step_to self (fst (choice_pair ! 0)) g else g);
            end_loc = cell (agents g1 self)
        in set_moved self True (append_move self (start, end_loc) g1)
      else g)"

definition TypeA_check_swap :: "aref \<Rightarrow> loc \<Rightarrow> Grid \<Rightarrow> bool \<times> Grid" where
  "TypeA_check_swap self c g =
     (if norm_cells c (end_cell (agents g self))
           < norm_cells (cell (agents g self)) (end_cell (agents g self))
         \<and> \<not> moved (agents g self)
      then (True, set_moved self True g)
      else (False, g))"

subsection \<open>TypeB, the PathFollower\<close>

text \<open>
  In \<open>shortest_path_between\<close> the variable \<open>cellul\<close> is assigned only inside
  \<open>if not self.moved\<close>; the \<open>return cellul.loc\<close> after it raises \<open>UnboundLocalError\<close> when
  the agent has moved.
\<close>

definition TypeB_shortest_path_between :: "aref \<Rightarrow> Grid \<Rightarrow> error + loc" where
  "TypeB_shortest_path_between self g =
     (if \<not> moved (agents g self) then
        let cellul = cell (agents g self);
            choices = filter (\<lambda>j. j \<noteq> cell (agents g self) \<and> Cell_symbol j \<noteq> ''D'')
                        (adjacent g (cell (agents g self)));
            choice_pair = rank_choices (end_cell (agents g self)) choices
        in Inr (if length choice_pair > 0 then fst (choice_pair ! 0) else cellul)
      else Inl UnboundLocalError)"

text \<open>The lookup loop of \<open>TypeB.move\<close>: the last cell of the list with these coordinates.\<close>

definition find_best_choice :: "loc \<Rightarrow> loc list \<Rightarrow> loc option" where
  "find_best_choice coords adj =
     foldl (\<lambda>best_choice c. if c = coords then Some c else best_choice) None adj"

definition TypeB_check_swap :: "aref \<Rightarrow> loc \<Rightarrow> Grid \<Rightarrow> bool \<times> Grid" where
  "TypeB_check_swap self c g =
     (let coords = shortest_path (cell (agents g self)) (end_cell (agents g self))
      in if coords = c \<and> \<not> moved (agents g self)
         then (True, set_moved self True g)
         else (False, g))"

subsection \<open>TypeC, the Tourist\<close>

text \<open>
  \<open>random.randint(0, 1)\<close> is the argument \<open>coin\<close>; \<open>random.choice(choices)\<close> is the
  element at index \<open>pick mod len(choices)\<close> for an arbitrary number \<open>pick\<close>.
\<close>

definition TypeC_check_swap :: "int \<Rightarrow> aref \<Rightarrow> loc \<Rightarrow> Grid \<Rightarrow> bool \<times> Grid" where
  "TypeC_check_swap coin self c g = (coin \<noteq> 0, g)"

definition TypeC_move1 :: "nat \<Rightarrow> aref \<Rightarrow> Grid \<Rightarrow> Grid" where
  "TypeC_move1 pick self g =
     (let start = cell (agents g self);
          choices = filter (\<lambda>i. occupant g i = None) (adjacent g (cell (agents g self)));
          g1 = (if length choices > 0 then
                  let choice = choices ! (pick mod length choices);
                      g' = step_to self choice g
                  in append_move self (start, cell (agents g' self)) g'
                else g)
      in incr_move_count self g1)"

definition TypeC_move2 :: "aref \<Rightarrow> Grid \<Rightarrow> Grid" where
  "TypeC_move2 self g =
     (if \<not> moved (agents g self) then
        let start = cell (agents g self);
            choices = filter (\<lambda>j. occupant g j = None \<and> j \<noteq> cell (agents g self))
                        (adjacent g (cell (agents g self)));
            choice_pair = rank_choices (end_cell (agents g self)) choices;
            g1 = (if length choice_pair > 0 then step_to self (fst (choice_pair ! 0)) g else g);
            end_loc = cell (agents g1 self)
        in set_moved self True (append_move self (start, end_loc) g1)
      else g)"

definition TypeC_move3 :: "aref \<Rightarrow> Grid \<Rightarrow> Grid" where
  "TypeC_move3 self g =
     (let start = cell (agents g self);
          end_loc = cell (agents g self)
      in incr_move_count self (append_move self (start, end_loc) g))"

subsection \<open>TypeD, the Obstacle\<close>

definition TypeD_check_swap :: "aref \<Rightarrow> loc \<Rightarrow> Grid \<Rightarrow> bool \<times> Grid" where
  "TypeD_check_swap self c g =
     (let coords = shortest_path (cell (agents g self)) (end_cell (agents g self))
      in if coords = c \<and> \<not> moved (agents g self)
         then (True, set_moved self True g)
         else (False, g))"

subsection \<open>A swap request and \<open>TypeB.move\<close>\<close>

text \<open>\<open>occupant.check_swap(cell)\<close> dispatches on the class of the occupant.\<close>

definition check_swap :: "int \<Rightarrow> aref \<Rightarrow> loc \<Rightarrow> Grid \<Rightarrow> bool \<times> Grid" where
  "check_swap coin a c g =
     (case klass (agents g a) of
        TypeA \<Rightarrow> TypeA_check_swap a c g
      | TypeB \<Rightarrow> TypeB_check_swap a c g
      | TypeC \<Rightarrow> TypeC_check_swap coin a c g
      | TypeD \<Rightarrow> TypeD_check_swap a c g)"

text \<open>
  The accepted swap:
  \<^verbatim>\<open>prev = self.cell; partner = best_choice.occupant; self.cell = best_choice\<close>
  \<^verbatim>\<open>best_choice.occupant = self; partner.cell = prev; partner.cell.occupant = partner\<close>
\<close>

definition swap_cells :: "aref \<Rightarrow> aref \<Rightarrow> loc \<Rightarrow> Grid \<Rightarrow> Grid" where
  "swap_cells self partner best_choice g =
     (let prev = cell (agents g self);
          g1 = set_cell self best_choice g;
          g2 = set_occupant best_choice (Some self) g1;
          g3 = set_cell partner prev g2
      in set_occupant (cell (agents g3 partner)) (Some partner) g3)"

text \<open>
  \<open>best_choice\<close> stays \<open>None\<close> when no cell of the adjacency list has the coordinates;
  \<open>best_choice.occupant\<close> then raises \<open>AttributeError\<close>.
\<close>

definition TypeB_move :: "int \<Rightarrow> aref \<Rightarrow> Grid \<Rightarrow> error + Grid" where
  "TypeB_move coin self g =
     (if \<not> moved (agents g self) then
        let start = cell (agents g self)
        in case TypeB_shortest_path_between self g of
             Inl e \<Rightarrow> Inl e
           | Inr coords \<Rightarrow>
               (case find_best_choice coords (adjacent g (cell (agents g self))) of
                  None \<Rightarrow> Inl AttributeError
                | Some best_choice \<Rightarrow>
                    let g1 = (case occupant g best_choice of
                                Some partner \<Rightarrow>
                                  (let (accepted, g') = check_swap coin partner (cell (agents g self)) g
                                   in if accepted \<and> symbol (klass (agents g' partner)) \<noteq> ''D''
                                      then swap_cells self partner best_choice g'
                                      else g')
                              | None \<Rightarrow> step_to self best_choice g);
                        end_loc = cell (agents g1 self)
                    in Inr (set_moved self True (append_move self (start, end_loc) g1)))
      else Inr g)"

section \<open>The grid's turn\<close>

subsection \<open>Cleanup\<close>

text \<open>
  One loop of \<open>clean_up\<close>: \<open>for a in pool: if done(a): a.cell.occupant = None;\<close>
  \<open>finished.append(a); pool.remove(a)\<close>. A Python \<open>for\<close> over a list keeps an index \<open>i\<close>
  into the list object, reads \<open>pool[i]\<close> while \<open>i < len(pool)\<close> and adds one; the list is
  the one \<open>remove\<close> shortens (it deletes the first element equal to \<open>a\<close>). The fields the
  tests read (\<open>cell\<close>, \<open>end\<close>, \<open>move_count\<close>) are not assigned in \<open>clean_up\<close>, so the test
  \<open>done\<close> and the cell \<open>cell_of\<close> of an agent are fixed over the loop.
\<close>

function clean_loop ::
  "(aref \<Rightarrow> bool) \<Rightarrow> (aref \<Rightarrow> loc) \<Rightarrow> nat \<Rightarrow>
   aref list \<times> aref list \<times> (loc \<Rightarrow> aref option) \<Rightarrow>
   aref list \<times> aref list \<times> (loc \<Rightarrow> aref option)" where
  "clean_loop done cell_of i (pool, finished, occ) =
     (if i < length pool then
        let a = pool ! i
        in if done a
           then clean_loop done cell_of (Suc i)
                  (remove1 a pool, finished @ [a], occ(cell_of a := None))
           else clean_loop done cell_of (Suc i) (pool, finished, occ)
      else (pool, finished, occ))"
  by pat_completeness auto
termination
  by (relation "measure (\<lambda>(done, cell_of, i, pool, finished, occ). length pool - i)")
     (auto simp: length_remove1)

text \<open>
  What one such loop does to the pool alone: the agents it leaves in the pool and the
  agents it removes, in the order of removal.
\<close>

definition scan_pool :: "(aref \<Rightarrow> bool) \<Rightarrow> aref list \<Rightarrow> aref list \<times> aref list" where
  "scan_pool done pool =
     (case clean_loop done (\<lambda>a. (0, 0)) 0 (pool, [], (\<lambda>c. None)) of
        (pool', removed, occ) \<Rightarrow> (pool', removed))"

text \<open>The tests of the three loops: \<open>a.end == a.cell\<close>, and for a Tourist also the cap.\<close>

definition arrived :: "Grid \<Rightarrow> aref \<Rightarrow> bool" where
  "arrived g a \<longleftrightarrow> end_cell (agents g a) = cell (agents g a)"

definition expired :: "Grid \<Rightarrow> aref \<Rightarrow> bool" where
  "expired g c \<longleftrightarrow> arrived g c \<or> move_count (agents g c) > MAX_C_MOVES"

definition clean_up :: "Grid \<Rightarrow> Grid" where
  "clean_up g =
     (let cell_of = (\<lambda>a. cell (agents g a));
          (pa, fa, occ1) = clean_loop (arrived g) cell_of 0 (playerAs g, finishedAs g, occupant g);
          (pb, fb, occ2) = clean_loop (arrived g) cell_of 0 (playerBs g, finishedBs g, occ1);
          (pc, fc, occ3) = clean_loop (expired g) cell_of 0 (playerCs g, finishedCs g, occ2)
      in g\<lparr>playerAs := pa, finishedAs := fa, playerBs := pb, finishedBs := fb,
           playerCs := pc, finishedCs := fc, occupant := occ3\<rparr>)"

subsection \<open>One turn\<close>

text \<open>
  The random draws of a turn. \<open>random.shuffle\<close> permutes a pool in place: \<open>shuffleA\<close>,
  \<open>shuffleB\<close> and \<open>shuffleC\<close> give the pool after the call (\<open>shuffles\<close> says that each is
  a rearrangement). \<open>coins b\<close> is what \<open>random.randint(0, 1)\<close> returns when the request
  of \<open>b\<close> reaches a Tourist, \<open>picks c\<close> the draw of \<open>random.choice\<close> in \<open>c.move1()\<close>.
\<close>

record Rand =
  shuffleA :: "aref list \<Rightarrow> aref list"
  shuffleB :: "aref list \<Rightarrow> aref list"
  shuffleC :: "aref list \<Rightarrow> aref list"
  coins :: "aref \<Rightarrow> int"
  picks :: "aref \<Rightarrow> nat"

definition shuffles :: "Rand \<Rightarrow> bool" where
  "shuffles rnd \<longleftrightarrow>
     (\<forall>xs. mset (shuffleA rnd xs) = mset xs) \<and>
     (\<forall>xs. mset (shuffleB rnd xs) = mset xs) \<and>
     (\<forall>xs. mset (shuffleC rnd xs) = mset xs)"

text \<open>A \<open>for\<close> loop over a pool whose body may raise: the first error ends the turn.\<close>

fun for_each :: "(aref \<Rightarrow> Grid \<Rightarrow> error + Grid) \<Rightarrow> aref list \<Rightarrow> Grid \<Rightarrow> error + Grid" where
  "for_each body [] g = Inr g"
| "for_each body (a # as) g =
     (case body a g of Inl e \<Rightarrow> Inl e | Inr g' \<Rightarrow> for_each body as g')"

text \<open>
  The mode of the Tourists in turn \<open>t\<close> of \<open>Nturn\<close>; \<open>/\<close> is Python 3's true division.
  No branch is taken when \<open>t\<close> is above \<open>Nturn\<close>.
\<close>

definition TypeC_act :: "Rand \<Rightarrow> int \<Rightarrow> int \<Rightarrow> aref \<Rightarrow> Grid \<Rightarrow> Grid" where
  "TypeC_act rnd t Nturn c g =
     (if real_of_int t \<le> real_of_int Nturn / 3 then TypeC_move2 c g
      else if real_of_int Nturn / 3 < real_of_int t \<and> real_of_int t \<le> real_of_int (Nturn * 2) / 3
           then TypeC_move3 c g
      else if real_of_int (Nturn * 2) / 3 < real_of_int t \<and> real_of_int t \<le> real_of_int Nturn
           then TypeC_move1 (picks rnd c) c g
      else g)"

definition reset :: "aref \<Rightarrow> Grid \<Rightarrow> Grid" where
  "reset self g = set_moved self False g"

definition phaseA :: "Rand \<Rightarrow> Grid \<Rightarrow> Grid" where
  "phaseA rnd g =
     (let g1 = g\<lparr>playerAs := shuffleA rnd (playerAs g)\<rparr>;
          g2 = foldl (\<lambda>s a. TypeA_move a s) g1 (playerAs g1);
          g3 = g2\<lparr>playerBs := shuffleB rnd (playerBs g2)\<rparr>
      in clean_up g3)"

definition phaseB :: "Rand \<Rightarrow> Grid \<Rightarrow> error + Grid" where
  "phaseB rnd g =
     (case for_each (\<lambda>b. TypeB_move (coins rnd b) b) (playerBs g) g of
        Inl e \<Rightarrow> Inl e
      | Inr g1 \<Rightarrow> Inr (clean_up g1))"

definition phaseC :: "Rand \<Rightarrow> int \<Rightarrow> int \<Rightarrow> Grid \<Rightarrow> Grid" where
  "phaseC rnd t Nturn g =
     (let g1 = g\<lparr>playerCs := shuffleC rnd (playerCs g)\<rparr>;
          g2 = foldl (\<lambda>s c. TypeC_act rnd t Nturn c s) g1 (playerCs g1)
      in clean_up g2)"

definition reset_all :: "Grid \<Rightarrow> Grid" where
  "reset_all g =
     (let g1 = foldl (\<lambda>s a. reset a s) g (playerAs g);
          g2 = foldl (\<lambda>s b. reset b s) g1 (playerBs g1);
          g3 = foldl (\<lambda>s c. reset c s) g2 (playerCs g2)
      in g3\<lparr>turn := turn g3 + 1\<rparr>)"

text \<open>
  \<open>play_turn(turn, Nturn)\<close>: the Movers act, cleanup, the PathFollowers act, cleanup,
  the Tourists act, cleanup, every active agent is reset, the turn counter goes up.
\<close>

definition play_turn :: "Rand \<Rightarrow> int \<Rightarrow> int \<Rightarrow> Grid \<Rightarrow> error + Grid" where
  "play_turn rnd t Nturn g =
     (case phaseB rnd (phaseA rnd g) of
        Inl e \<Rightarrow> Inl e
      | Inr g1 \<Rightarrow> Inr (reset_all (phaseC rnd t Nturn g1)))"

text \<open>
  The driver's loop \<open>for i in range(Nturn): grid.play_turn(i, Nturn)\<close>, cut after the
  first \<open>k\<close> turns; \<open>rnds i\<close> holds the random draws of turn \<open>i\<close>.
\<close>

fun play :: "(nat \<Rightarrow> Rand) \<Rightarrow> int \<Rightarrow> nat \<Rightarrow> Grid \<Rightarrow> error + Grid" where
  "play rnds Nturn 0 g = Inr g"
| "play rnds Nturn (Suc k) g =
     (case play rnds Nturn k g of
        Inl e \<Rightarrow> Inl e
      | Inr g' \<Rightarrow> play_turn (rnds k) (int k) Nturn g')"

section \<open>Scenarios\<close>

text \<open>
  Small populated grids used to run the methods. Each is what \<open>populate\<close> builds from the
  rows named with it, on a grid \<open>Grid(width, height)\<close> after \<open>initialize()\<close>.
\<close>

text \<open>Rows \<open>A1,1,0,2,0\<close> and \<open>C1,2,0,0,0\<close> on a 3 by 1 grid.\<close>

definition mover_state :: Grid where
  "mover_state =
     new_agent ''C1'' TypeC (2, 0) (0, 0)
       (new_agent ''A1'' TypeA (1, 0) (2, 0) (initialize (Grid_init 3 1)))"

text \<open>Rows \<open>A1,2,0,0,0\<close> and \<open>B1,1,0,2,0\<close> on a 3 by 1 grid.\<close>

definition swap_state :: Grid where
  "swap_state =
     new_agent ''B1'' TypeB (1, 0) (2, 0)
       (new_agent ''A1'' TypeA (2, 0) (0, 0) (initialize (Grid_init 3 1)))"

text \<open>Rows \<open>B1,0,0,2,0\<close> and \<open>C1,1,0,0,0\<close> on a 3 by 1 grid.\<close>

definition tourist_state :: Grid where
  "tourist_state =
     new_agent ''C1'' TypeC (1, 0) (0, 0)
       (new_agent ''B1'' TypeB (0, 0) (2, 0) (initialize (Grid_init 3 1)))"

text \<open>Rows \<open>A1,0,0,1,0\<close> and \<open>A2,0,2,1,2\<close> on a 2 by 3 grid.\<close>

definition two_movers :: Grid where
  "two_movers =
     new_agent ''A2'' TypeA (0, 2) (1, 2)
       (new_agent ''A1'' TypeA (0, 0) (1, 0) (initialize (Grid_init 2 3)))"

text \<open>
  Rows \<open>C1,0,0,1,0\<close>, \<open>D,1,0,1,0\<close> and \<open>C2,2,0,1,0\<close> on a 3 by 1 grid: two Tourists whose
  common destination is the cell of the obstacle \<open>D1\<close> between them.
\<close>

definition blocked_tourists :: Grid where
  "blocked_tourists =
     new_agent ''C2'' TypeC (2, 0) (1, 0)
       (new_agent ''D1'' TypeD (1, 0) (1, 0)
          (new_agent ''C1'' TypeC (0, 0) (1, 0) (initialize (Grid_init 3 1))))"

text \<open>
  What stays the same in every turn of a run from \<open>blocked_tourists\<close> while both Tourists
  are active, with \<open>n\<close> the common value of their move counters at the start of a turn.
\<close>

definition blocked :: "int \<Rightarrow> Grid \<Rightarrow> bool" where
  "blocked n s \<longleftrightarrow>
     playerAs s = [] \<and> playerBs s = [] \<and> playerCs s = [''C1'', ''C2''] \<and>
     finishedCs s = [] \<and>
     adjacent s (0, 0) = [(0, 0), (1, 0)] \<and> adjacent s (2, 0) = [(1, 0), (2, 0)] \<and>
     occupant s (0, 0) = Some ''C1'' \<and> occupant s (1, 0) = Some ''D1'' \<and>
     occupant s (2, 0) = Some ''C2'' \<and>
     cell (agents s ''C1'') = (0, 0) \<and> end_cell (agents s ''C1'') = (1, 0) \<and>
     cell (agents s ''C2'') = (2, 0) \<and> end_cell (agents s ''C2'') = (1, 0) \<and>
     \<not> moved (agents s ''C1'') \<and> \<not> moved (agents s ''C2'') \<and>
     move_count (agents s ''C1'') = n \<and> move_count (agents s ''C2'') = n"

text \<open>
  Rows \<open>B1,0,0,1,0\<close> and \<open>C1,1,0,2,0\<close> on a 3 by 1 grid: the PathFollower wants the cell of the
  Tourist, whose own destination lies on the other side.
\<close>

definition swapped_tourist :: Grid where
  "swapped_tourist =
     new_agent ''C1'' TypeC (1, 0) (2, 0)
       (new_agent ''B1'' TypeB (0, 0) (1, 0) (initialize (Grid_init 3 1)))"

text \<open>
  Rows \<open>B1,0,0,0,0\<close> and \<open>B2,2,0,2,0\<close> on a 3 by 1 grid: two PathFollowers that start on
  their destinations.
\<close>

definition two_followers :: Grid where
  "two_followers =
     new_agent ''B2'' TypeB (2, 0) (2, 0)
       (new_agent ''B1'' TypeB (0, 0) (0, 0) (initialize (Grid_init 3 1)))"

text \<open>Random draws that leave every pool in its order; all coins show 1.\<close>

definition plain_draws :: Rand where
  "plain_draws =
     \<lparr>shuffleA = (\<lambda>xs. xs), shuffleB = (\<lambda>xs. xs), shuffleC = (\<lambda>xs. xs),
      coins = (\<lambda>b. 1), picks = (\<lambda>c. 0)\<rparr>"

text \<open>Rows \<open>B1,0,0,2,0\<close> and \<open>D,1,0,1,0\<close> on a 3 by 1 grid; the obstacle is named \<open>D1\<close>.\<close>

definition obstacle_state :: Grid where
  "obstacle_state =
     new_agent ''D1'' TypeD (1, 0) (1, 0)
       (new_agent ''B1'' TypeB (0, 0) (2, 0) (initialize (Grid_init 3 1)))"

section \<open>Invariants\<close>

text \<open>The agents on the board: the three active pools and the obstacles.\<close>

definition active :: "Grid \<Rightarrow> aref list" where
  "active g = playerAs g @ playerBs g @ playerCs g @ playerDs g"

text \<open>
  Every agent on the board is in one pool, once, and its cell names it as occupant. A cell
  has a single \<open>occupant\<close> field, so this gives each cell at most one agent of the board.
\<close>

definition occupancy_inv :: "Grid \<Rightarrow> bool" where
  "occupancy_inv g \<longleftrightarrow>
     distinct (active g) \<and> (\<forall>a\<in>set (active g). occupant g (cell (agents g a)) = Some a)"

text \<open>
  The adjacency lists are the ones \<open>initialize\<close> builds for the width and height of the
  grid, and every agent on the board stands on a cell of the grid.
\<close>

definition linked :: "Grid \<Rightarrow> bool" where
  "linked g \<longleftrightarrow> adjacent g = adjacent (initialize g)"

definition placed :: "Grid \<Rightarrow> bool" where
  "placed g \<longleftrightarrow> (\<forall>a\<in>set (active g). in_grid g (cell (agents g a)))"

text \<open>The agents the three loops of one \<open>clean_up\<close> remove.\<close>

definition removed :: "Grid \<Rightarrow> aref list" where
  "removed g =
     snd (scan_pool (arrived g) (playerAs g)) @ snd (scan_pool (arrived g) (playerBs g)) @
     snd (scan_pool (expired g) (playerCs g))"

text \<open>
  What a method call leaves alone: the grid, the pools, the class and destination of
  every agent, and a \<open>moved\<close> flag that is already set.
\<close>

definition frame :: "Grid \<Rightarrow> Grid \<Rightarrow> bool" where
  "frame g g' \<longleftrightarrow>
     adjacent g' = adjacent g \<and> width g' = width g \<and> height g' = height g \<and>
     playerAs g' = playerAs g \<and> playerBs g' = playerBs g \<and> playerCs g' = playerCs g \<and>
     playerDs g' = playerDs g \<and>
     (\<forall>a. klass (agents g' a) = klass (agents g a) \<and>
          end_cell (agents g' a) = end_cell (agents g a) \<and>
          (moved (agents g a) \<longrightarrow> moved (agents g' a)))"

text \<open>
  An obstacle of the board: an object of class \<open>TypeD\<close> in the obstacle pool and in none of
  the three movement pools, created by \<open>TypeD(s, s, self)\<close> with its own cell as
  destination.
\<close>

definition is_obstacle :: "Grid \<Rightarrow> aref \<Rightarrow> bool" where
  "is_obstacle g d \<longleftrightarrow>
     d \<in> set (playerDs g) \<and> klass (agents g d) = TypeD \<and>
     d \<notin> set (playerAs g @ playerBs g @ playerCs g) \<and>
     end_cell (agents g d) = cell (agents g d)"

text \<open>
  The occupancy invariant alone (\<open>strong = False\<close>), or together with a well-built grid
  on which every agent of the board stands (\<open>strong = True\<close>); the second is what makes
  \<open>TypeB.move\<close> run without an exception.
\<close>

definition board_inv :: "bool \<Rightarrow> Grid \<Rightarrow> bool" where
  "board_inv strong g \<longleftrightarrow> occupancy_inv g \<and> (strong \<longrightarrow> linked g \<and> placed g)"

definition obstacle_at :: "Grid \<Rightarrow> aref \<Rightarrow> loc \<Rightarrow> bool" where
  "obstacle_at g d c \<longleftrightarrow> is_obstacle g d \<and> cell (agents g d) = c"

section \<open>The neighbour lists\<close>

lemma py_index_make_cells:
  "0 \<le> x \<Longrightarrow> py_index (make_cells w h) x =
     (if x < h then Some (map (\<lambda>r. (r, x)) [0..w - 1]) else None)"
  by (simp add: py_index_def make_cells_def Let_def)

lemma py_index_row:
  "0 \<le> y \<Longrightarrow> py_index (map (\<lambda>r. (r, x)) [0..w - 1]) y =
     (if y < w then Some (y, x) else None)"
  by (simp add: py_index_def Let_def)

lemma try_adjacent_make_cells:
  "try_adjacent (make_cells w h) x y =
     (if 0 \<le> y \<and> y < w \<and> 0 \<le> x \<and> x < h then [(y, x)] else [])"
proof (cases "x < 0 \<or> y < 0")
  case True
  then show ?thesis by (auto simp: try_adjacent_def)
next
  case False
  then have "0 \<le> x" "0 \<le> y" by auto
  then show ?thesis
    by (simp add: try_adjacent_def py_index_make_cells py_index_row)
qed

lemma concat_map_if_filter:
  "concat (map (\<lambda>d. if P (f d) then [f d] else []) ds) = filter P (map f ds)"
  by (induction ds) simp_all

lemma link_cell_make_cells:
  "link_cell (make_cells w h) r s =
     filter (\<lambda>c. 0 \<le> fst c \<and> fst c < w \<and> 0 \<le> snd c \<and> snd c < h) (moore9 (s, r))"
proof -
  let ?P = "\<lambda>c. 0 \<le> fst c \<and> fst c < w \<and> 0 \<le> snd c \<and> snd c < h"
  have one: "try_adjacent (make_cells w h) (r + di) (s + dj) =
      (if ?P (s + dj, r + di) then [(s + dj, r + di)] else [])" for di dj
    by (simp add: try_adjacent_make_cells)
  have inner: "concat (map (\<lambda>dj. try_adjacent (make_cells w h) (r + di) (s + dj)) ds) =
      filter ?P (map (\<lambda>dj. (s + dj, r + di)) ds)" for di ds
    unfolding one by (rule concat_map_if_filter [of ?P "\<lambda>dj. (s + dj, r + di)"])
  have "link_cell (make_cells w h) r s =
      concat (map (\<lambda>di. filter ?P (map (\<lambda>dj. (s + dj, r + di)) [- 1, 0, 1])) [- 1, 0, 1])"
    unfolding link_cell_def inner ..
  also have "\<dots> = filter ?P (concat (map (\<lambda>di. map (\<lambda>dj. (s + dj, r + di)) [- 1, 0, 1]) [- 1, 0, 1]))"
    by (simp only: filter_concat map_map o_def)
  also have "concat (map (\<lambda>di. map (\<lambda>dj. (s + dj, r + di)) [- 1, 0, 1]) [- 1, 0, 1]) = moore9 (s, r)"
    by (simp add: moore9_def)
  finally show ?thesis .
qed

lemma adjacent_initialize:
  assumes "in_grid g c"
  shows "adjacent (initialize g) c = filter (in_grid g) (moore9 c)"
proof -
  have "(\<lambda>c. 0 \<le> fst c \<and> fst c < width g \<and> 0 \<le> snd c \<and> snd c < height g) = in_grid g"
    by (auto simp: in_grid_def fun_eq_iff)
  then show ?thesis
    using assms link_cell_make_cells [of "width g" "height g" "snd c" "fst c"]
    by (simp add: initialize_def Let_def in_grid_def)
qed

lemma abs_le_one_iff: "\<bar>a - b\<bar> \<le> 1 \<longleftrightarrow> a = b - 1 \<or> a = b \<or> a = b + (1::int)"
  by arith

lemma set_moore9: "c' \<in> set (moore9 c) \<longleftrightarrow> chebyshev c c' \<le> 1"
proof -
  obtain x y where c: "c = (x, y)" by (cases c)
  obtain x' y' where c': "c' = (x', y')" by (cases c')
  have "c' \<in> set (moore9 c) \<longleftrightarrow> (x' = x - 1 \<or> x' = x \<or> x' = x + 1) \<and> (y' = y - 1 \<or> y' = y \<or> y' = y + 1)"
    unfolding c c' moore9_def by (simp; blast)
  then show ?thesis
    by (simp add: chebyshev_def c c' abs_le_one_iff)
qed

lemma distinct_moore9: "distinct (moore9 c)"
  by (cases c) (simp add: moore9_def)

text \<open>
  C7 (as amended). After \<open>initialize\<close>, the neighbour list of a cell of the grid holds
  exactly the cells of the grid at Chebyshev distance at most 1 from it, the cell itself
  included (the loops do not skip \<open>delta_i = delta_j = 0\<close>), each once and with no
  wraparound.
\<close>

theorem initialize_adjacent_moore:
  assumes "in_grid (Grid_init w h) c"
  shows "distinct (adjacent (initialize (Grid_init w h)) c) \<and>
         set (adjacent (initialize (Grid_init w h)) c) =
           {c'. in_grid (Grid_init w h) c' \<and> chebyshev c c' \<le> 1}"
  using assms
  by (auto simp: adjacent_initialize set_moore9 distinct_moore9)

lemma adjacent_2x2_origin:
  "adjacent (initialize (Grid_init 2 2)) (0, 0) = [(0, 0), (1, 0), (0, 1), (1, 1)]"
proof -
  have h: "in_grid (Grid_init 2 2) (0, 0)" by (simp add: in_grid_def Grid_init_def)
  show ?thesis
    by (simp add: adjacent_initialize [OF h] moore9_def) (simp add: in_grid_def Grid_init_def)
qed

theorem initialize_adjacent_moore_witness:
  "in_grid (Grid_init 2 2) (0, 0) \<and>
   distinct (adjacent (initialize (Grid_init 2 2)) (0, 0)) \<and>
   set (adjacent (initialize (Grid_init 2 2)) (0, 0)) =
     {c'. in_grid (Grid_init 2 2) c' \<and> chebyshev (0, 0) c' \<le> 1}"
proof -
  have h: "in_grid (Grid_init 2 2) (0, 0)" by (simp add: in_grid_def Grid_init_def)
  with initialize_adjacent_moore [OF h] show ?thesis by simp
qed

text \<open>
  C7 as stated (the list holds exactly the cells at distance exactly 1) fails on a 2 by 2
  grid: the list of the corner \<open>(0, 0)\<close> starts with \<open>(0, 0)\<close> itself.
\<close>

theorem adjacent_contains_self_counterexample:
  "\<not> set (adjacent (initialize (Grid_init 2 2)) (0, 0)) =
       {c'. in_grid (Grid_init 2 2) c' \<and> chebyshev (0, 0) c' = 1}"
proof -
  have "(0, 0) \<notin> {c'. in_grid (Grid_init 2 2) c' \<and> chebyshev (0, 0) c' = 1}"
    by (simp add: chebyshev_def)
  moreover have "(0, 0) \<in> set (adjacent (initialize (Grid_init 2 2)) (0, 0))"
    by (simp add: adjacent_2x2_origin)
  ultimately show ?thesis by metis
qed

lemma set_cell_fields [simp]:
  "grid (set_cell a c g) = grid g"
  "width (set_cell a c g) = width g"
  "height (set_cell a c g) = height g"
  "adjacent (set_cell a c g) = adjacent g"
  "occupant (set_cell a c g) = occupant g"
  "agents (set_cell a c g) = (agents g)(a := (agents g a)\<lparr>cell := c\<rparr>)"
  "playerAs (set_cell a c g) = playerAs g"
  "playerBs (set_cell a c g) = playerBs g"
  "playerCs (set_cell a c g) = playerCs g"
  "playerDs (set_cell a c g) = playerDs g"
  "finishedAs (set_cell a c g) = finishedAs g"
  "finishedBs (set_cell a c g) = finishedBs g"
  "finishedCs (set_cell a c g) = finishedCs g"
  "turn (set_cell a c g) = turn g"
  by (simp_all add: set_cell_def)

lemma set_occupant_fields [simp]:
  "grid (set_occupant c v g) = grid g"
  "width (set_occupant c v g) = width g"
  "height (set_occupant c v g) = height g"
  "adjacent (set_occupant c v g) = adjacent g"
  "occupant (set_occupant c v g) = (occupant g)(c := v)"
  "agents (set_occupant c v g) = agents g"
  "playerAs (set_occupant c v g) = playerAs g"
  "playerBs (set_occupant c v g) = playerBs g"
  "playerCs (set_occupant c v g) = playerCs g"
  "playerDs (set_occupant c v g) = playerDs g"
  "finishedAs (set_occupant c v g) = finishedAs g"
  "finishedBs (set_occupant c v g) = finishedBs g"
  "finishedCs (set_occupant c v g) = finishedCs g"
  "turn (set_occupant c v g) = turn g"
  by (simp_all add: set_occupant_def)

lemma set_moved_fields [simp]:
  "grid (set_moved a b g) = grid g"
  "width (set_moved a b g) = width g"
  "height (set_moved a b g) = height g"
  "adjacent (set_moved a b g) = adjacent g"
  "occupant (set_moved a b g) = occupant g"
  "agents (set_moved a b g) = (agents g)(a := (agents g a)\<lparr>moved := b\<rparr>)"
  "playerAs (set_moved a b g) = playerAs g"
  "playerBs (set_moved a b g) = playerBs g"
  "playerCs (set_moved a b g) = playerCs g"
  "playerDs (set_moved a b g) = playerDs g"
  "finishedAs (set_moved a b g) = finishedAs g"
  "finishedBs (set_moved a b g) = finishedBs g"
  "finishedCs (set_moved a b g) = finishedCs g"
  "turn (set_moved a b g) = turn g"
  by (simp_all add: set_moved_def)

lemma append_move_fields [simp]:
  "grid (append_move a m g) = grid g"
  "width (append_move a m g) = width g"
  "height (append_move a m g) = height g"
  "adjacent (append_move a m g) = adjacent g"
  "occupant (append_move a m g) = occupant g"
  "agents (append_move a m g) = (agents g)(a := (agents g a)\<lparr>moves := moves (agents g a) @ [m]\<rparr>)"
  "playerAs (append_move a m g) = playerAs g"
  "playerBs (append_move a m g) = playerBs g"
  "playerCs (append_move a m g) = playerCs g"
  "playerDs (append_move a m g) = playerDs g"
  "finishedAs (append_move a m g) = finishedAs g"
  "finishedBs (append_move a m g) = finishedBs g"
  "finishedCs (append_move a m g) = finishedCs g"
  "turn (append_move a m g) = turn g"
  by (simp_all add: append_move_def)

lemma incr_move_count_fields [simp]:
  "grid (incr_move_count a g) = grid g"
  "width (incr_move_count a g) = width g"
  "height (incr_move_count a g) = height g"
  "adjacent (incr_move_count a g) = adjacent g"
  "occupant (incr_move_count a g) = occupant g"
  "agents (incr_move_count a g) = (agents g)(a := (agents g a)\<lparr>move_count := move_count (agents g a) + 1\<rparr>)"
  "playerAs (incr_move_count a g) = playerAs g"
  "playerBs (incr_move_count a g) = playerBs g"
  "playerCs (incr_move_count a g) = playerCs g"
  "playerDs (incr_move_count a g) = playerDs g"
  "finishedAs (incr_move_count a g) = finishedAs g"
  "finishedBs (incr_move_count a g) = finishedBs g"
  "finishedCs (incr_move_count a g) = finishedCs g"
  "turn (incr_move_count a g) = turn g"
  by (simp_all add: incr_move_count_def)


lemma step_to_fields [simp]:
  "adjacent (step_to self c g) = adjacent g"
  "occupant (step_to self c g) = (occupant g)(cell (agents g self) := None, c := Some self)"
  "agents (step_to self c g) = (agents g)(self := (agents g self)\<lparr>cell := c\<rparr>)"
  "playerAs (step_to self c g) = playerAs g"
  "playerBs (step_to self c g) = playerBs g"
  "playerCs (step_to self c g) = playerCs g"
  "playerDs (step_to self c g) = playerDs g"
  "finishedAs (step_to self c g) = finishedAs g"
  "finishedBs (step_to self c g) = finishedBs g"
  "finishedCs (step_to self c g) = finishedCs g"
  "width (step_to self c g) = width g"
  "height (step_to self c g) = height g"
  "turn (step_to self c g) = turn g"
  by (simp_all add: step_to_def Let_def)

lemma swap_cells_fields [simp]:
  "adjacent (swap_cells self partner b g) = adjacent g"
  "occupant (swap_cells self partner b g) =
     (occupant g)(b := Some self, cell (agents g self) := Some partner)"
  "agents (swap_cells self partner b g) =
     (let ag = (agents g)(self := (agents g self)\<lparr>cell := b\<rparr>)
      in ag(partner := (ag partner)\<lparr>cell := cell (agents g self)\<rparr>))"
  "playerAs (swap_cells self partner b g) = playerAs g"
  "playerBs (swap_cells self partner b g) = playerBs g"
  "playerCs (swap_cells self partner b g) = playerCs g"
  "playerDs (swap_cells self partner b g) = playerDs g"
  "finishedAs (swap_cells self partner b g) = finishedAs g"
  "finishedBs (swap_cells self partner b g) = finishedBs g"
  "finishedCs (swap_cells self partner b g) = finishedCs g"
  "width (swap_cells self partner b g) = width g"
  "height (swap_cells self partner b g) = height g"
  "turn (swap_cells self partner b g) = turn g"
  by (simp_all add: swap_cells_def Let_def)

lemma new_agent_fields [simp]:
  "adjacent (new_agent r k s e g) = adjacent g"
  "occupant (new_agent r k s e g) = (occupant g)(s := Some r)"
  "agents (new_agent r k s e g) =
     (agents g)(r := \<lparr>klass = k, cell = s, end_cell = e, moves = [], moved = False,
                      move_count = 0\<rparr>)"
  "playerAs (new_agent r k s e g) = (if k = TypeA then playerAs g @ [r] else playerAs g)"
  "playerBs (new_agent r k s e g) = (if k = TypeB then playerBs g @ [r] else playerBs g)"
  "playerCs (new_agent r k s e g) = (if k = TypeC then playerCs g @ [r] else playerCs g)"
  "playerDs (new_agent r k s e g) = (if k = TypeD then playerDs g @ [r] else playerDs g)"
  "finishedAs (new_agent r k s e g) = finishedAs g"
  "finishedBs (new_agent r k s e g) = finishedBs g"
  "finishedCs (new_agent r k s e g) = finishedCs g"
  "width (new_agent r k s e g) = width g"
  "height (new_agent r k s e g) = height g"
  "turn (new_agent r k s e g) = turn g"
  by (cases k; simp add: new_agent_def Let_def)+

lemma initialize_fields [simp]:
  "occupant (initialize g) = occupant g"
  "agents (initialize g) = agents g"
  "playerAs (initialize g) = playerAs g"
  "playerBs (initialize g) = playerBs g"
  "playerCs (initialize g) = playerCs g"
  "playerDs (initialize g) = playerDs g"
  "finishedAs (initialize g) = finishedAs g"
  "finishedBs (initialize g) = finishedBs g"
  "finishedCs (initialize g) = finishedCs g"
  "width (initialize g) = width g"
  "height (initialize g) = height g"
  "turn (initialize g) = turn g"
  by (simp_all add: initialize_def Let_def)

lemma Grid_init_fields [simp]:
  "occupant (Grid_init w h) = (\<lambda>c. None)"
  "playerAs (Grid_init w h) = []"
  "playerBs (Grid_init w h) = []"
  "playerCs (Grid_init w h) = []"
  "playerDs (Grid_init w h) = []"
  "finishedAs (Grid_init w h) = []"
  "finishedBs (Grid_init w h) = []"
  "finishedCs (Grid_init w h) = []"
  "width (Grid_init w h) = w"
  "height (Grid_init w h) = h"
  "turn (Grid_init w h) = 0"
  by (simp_all add: Grid_init_def)

lemma in_grid_frame [simp]:
  "in_grid (initialize g) = in_grid g"
  "in_grid (new_agent r k s e g) = in_grid g"
  by (simp_all add: in_grid_def fun_eq_iff)

lemma adjacent_row3:
  "adjacent (initialize (Grid_init 3 1)) (0, 0) = [(0, 0), (1, 0)]"
  "adjacent (initialize (Grid_init 3 1)) (1, 0) = [(0, 0), (1, 0), (2, 0)]"
  "adjacent (initialize (Grid_init 3 1)) (2, 0) = [(1, 0), (2, 0)]"
  by (simp_all add: adjacent_initialize in_grid_def moore9_def)

lemma grid_fields [simp]:
  "grid (new_agent r k s e g) = grid g"
  "grid (initialize g) = make_cells (width g) (height g)"
  by (cases k; simp add: new_agent_def initialize_def Let_def)+

section \<open>The cleanup loop\<close>

declare clean_loop.simps [simp del]

lemma clean_loop_split:
  "clean_loop d c i (p, f, occ) =
     (case clean_loop d c i (p, [], occ0) of
        (p', r, occ') \<Rightarrow> (p', f @ r, (\<lambda>x. if x \<in> c ` set r then None else occ x)))"
proof (induction "length p - i" arbitrary: i p f occ occ0 rule: less_induct)
  case less
  show ?case
  proof (cases "i < length p")
    case False
    then show ?thesis by (simp add: clean_loop.simps)
  next
    case True
    let ?a = "p ! i"
    show ?thesis
    proof (cases "d ?a")
      case False
      have m: "length p - Suc i < length p - i" using True by simp
      have l: "clean_loop d c i (p, f, occ) = clean_loop d c (Suc i) (p, f, occ)"
        using True False by (simp add: clean_loop.simps [of d c i])
      have r: "clean_loop d c i (p, [], occ0) = clean_loop d c (Suc i) (p, [], occ0)"
        using True False by (simp add: clean_loop.simps [of d c i])
      show ?thesis
        unfolding l r by (rule less [OF m])
    next
      case d: True
      let ?p = "remove1 ?a p"
      have m: "length ?p - Suc i < length p - i"
        using True by (simp add: length_remove1)
      have l: "clean_loop d c i (p, f, occ) =
                 clean_loop d c (Suc i) (?p, f @ [?a], occ(c ?a := None))"
        using True d by (simp add: clean_loop.simps [of d c i] Let_def)
      have r: "clean_loop d c i (p, [], occ0) =
                 clean_loop d c (Suc i) (?p, [?a], occ0(c ?a := None))"
        using True d by (simp add: clean_loop.simps [of d c i] Let_def)
      obtain p' r' o' where res: "clean_loop d c (Suc i) (?p, [], occ0) = (p', r', o')"
        by (cases "clean_loop d c (Suc i) (?p, [], occ0)")
      have l': "clean_loop d c (Suc i) (?p, f @ [?a], occ(c ?a := None)) =
                  (p', (f @ [?a]) @ r',
                   (\<lambda>x. if x \<in> c ` set r' then None else (occ(c ?a := None)) x))"
        using less [OF m, of "f @ [?a]" "occ(c ?a := None)" occ0] by (simp add: res)
      have r'': "clean_loop d c (Suc i) (?p, [?a], occ0(c ?a := None)) =
                  (p', [?a] @ r',
                   (\<lambda>x. if x \<in> c ` set r' then None else (occ0(c ?a := None)) x))"
        using less [OF m, of "[?a]" "occ0(c ?a := None)" occ0] by (simp add: res)
      show ?thesis
        unfolding l r l' r'' by (auto simp: fun_eq_iff)
    qed
  qed
qed

lemma clean_loop_scan_pool:
  "clean_loop d c 0 (p, f, occ) =
     (fst (scan_pool d p), f @ snd (scan_pool d p),
      (\<lambda>x. if x \<in> c ` set (snd (scan_pool d p)) then None else occ x))"
proof -
  obtain p' r' o' where a: "clean_loop d c 0 (p, [], occ) = (p', r', o')"
    by (cases "clean_loop d c 0 (p, [], occ)")
  obtain p2 r2 o2 where b: "clean_loop d (\<lambda>a. (0, 0)) 0 (p, [], (\<lambda>c. None)) = (p2, r2, o2)"
    by (cases "clean_loop d (\<lambda>a. (0, 0)) 0 (p, [], (\<lambda>c. None))")
  have pr: "\<exists>o3. clean_loop d c' i (p, [], occ') = (p2', r2', o3) \<Longrightarrow>
            \<exists>o4. clean_loop d c'' i (p, [], occ'') = (p2', r2', o4)"
    for c' c'' occ' occ'' i p p2' r2' 
  proof (induction "length p - i" arbitrary: i p p2' r2' occ' occ'' rule: less_induct)
    case less
    show ?case
    proof (cases "i < length p")
      case False
      with less.prems show ?thesis by (simp add: clean_loop.simps)
    next
      case True
      show ?thesis
      proof (cases "d (p ! i)")
        case False
        have m: "length p - Suc i < length p - i" using True by simp
        from less.prems True False
        have "\<exists>o3. clean_loop d c' (Suc i) (p, [], occ') = (p2', r2', o3)"
          by (simp add: clean_loop.simps [of d c' i])
        from less.hyps [OF m this, of occ'']
        show ?thesis using True False by (simp add: clean_loop.simps [of d c'' i])
      next
        case d: True
        let ?a = "p ! i"
        let ?p = "remove1 ?a p"
        have m: "length ?p - Suc i < length p - i"
          using True by (simp add: length_remove1)
        obtain q s t where res: "clean_loop d c' (Suc i) (?p, [], occ') = (q, s, t)"
          by (cases "clean_loop d c' (Suc i) (?p, [], occ')")
        then have "\<exists>o3. clean_loop d c' (Suc i) (?p, [], occ') = (q, s, o3)" by simp
        from less.hyps [OF m this, of occ'']
        obtain t' where res': "clean_loop d c'' (Suc i) (?p, [], occ'') = (q, s, t')" by blast
        have "clean_loop d c' i (p, [], occ') = clean_loop d c' (Suc i) (?p, [?a], occ'(c' ?a := None))"
          using True d by (simp add: clean_loop.simps [of d c' i] Let_def)
        also have "\<dots> = (q, [?a] @ s, (\<lambda>x. if x \<in> c' ` set s then None else (occ'(c' ?a := None)) x))"
          using clean_loop_split [of d c' "Suc i" ?p "[?a]" "occ'(c' ?a := None)" occ']
          by (simp add: res)
        finally have e: "p2' = q" "r2' = [?a] @ s" using less.prems by auto
        have "clean_loop d c'' i (p, [], occ'') = clean_loop d c'' (Suc i) (?p, [?a], occ''(c'' ?a := None))"
          using True d by (simp add: clean_loop.simps [of d c'' i] Let_def)
        also have "\<dots> = (q, [?a] @ s, (\<lambda>x. if x \<in> c'' ` set s then None else (occ''(c'' ?a := None)) x))"
          using clean_loop_split [of d c'' "Suc i" ?p "[?a]" "occ''(c'' ?a := None)" occ'']
          by (simp add: res')
        finally show ?thesis using e by simp
      qed
    qed
  qed
  from pr [of c 0 p occ p' r' "\<lambda>a. (0, 0)" "\<lambda>c. None"] a b
  have "p2 = p'" "r2 = r'" by auto
  then have sp: "scan_pool d p = (p', r')"
    by (simp add: scan_pool_def b)
  show ?thesis
    using clean_loop_split [of d c 0 p f occ occ] by (simp add: a sp)
qed


lemma clean_up_fields [simp]:
  "agents (clean_up g) = agents g"
  "adjacent (clean_up g) = adjacent g"
  "playerDs (clean_up g) = playerDs g"
  "width (clean_up g) = width g"
  "height (clean_up g) = height g"
  "turn (clean_up g) = turn g"
  by (simp_all add: clean_up_def Let_def case_prod_beta)

lemma clean_up_pools:
  "playerAs (clean_up g) = fst (scan_pool (arrived g) (playerAs g))"
  "finishedAs (clean_up g) = finishedAs g @ snd (scan_pool (arrived g) (playerAs g))"
  "playerBs (clean_up g) = fst (scan_pool (arrived g) (playerBs g))"
  "finishedBs (clean_up g) = finishedBs g @ snd (scan_pool (arrived g) (playerBs g))"
  "playerCs (clean_up g) = fst (scan_pool (expired g) (playerCs g))"
  "finishedCs (clean_up g) = finishedCs g @ snd (scan_pool (expired g) (playerCs g))"
  by (simp_all add: clean_up_def Let_def clean_loop_scan_pool)

lemma clean_up_occupant:
  "occupant (clean_up g) =
     (\<lambda>x. if x \<in> (\<lambda>a. cell (agents g a)) ` set (removed g) then None else occupant g x)"
  by (auto simp: clean_up_def Let_def clean_loop_scan_pool removed_def fun_eq_iff)

lemma scan_pool_Nil [simp]: "scan_pool d [] = ([], [])"
  by (simp add: scan_pool_def clean_loop.simps)

lemma clean_loop_mset:
  "clean_loop d c i (p, [], occ) = (p', r, occ') \<Longrightarrow>
     mset p = mset p' + mset r \<and> (\<forall>a\<in>set r. d a)"
proof (induction "length p - i" arbitrary: i p p' r occ occ' rule: less_induct)
  case less
  show ?case
  proof (cases "i < length p")
    case False
    with less.prems show ?thesis by (simp add: clean_loop.simps)
  next
    case True
    show ?thesis
    proof (cases "d (p ! i)")
      case False
      have m: "length p - Suc i < length p - i" using True by simp
      from less.prems True False
      have "clean_loop d c (Suc i) (p, [], occ) = (p', r, occ')"
        by (simp add: clean_loop.simps [of d c i])
      from less.hyps [OF m this] show ?thesis .
    next
      case d: True
      let ?a = "p ! i"
      let ?p = "remove1 ?a p"
      have m: "length ?p - Suc i < length p - i"
        using True by (simp add: length_remove1)
      obtain q s t where res: "clean_loop d c (Suc i) (?p, [], occ) = (q, s, t)"
        by (cases "clean_loop d c (Suc i) (?p, [], occ)")
      have "clean_loop d c i (p, [], occ) = clean_loop d c (Suc i) (?p, [?a], occ(c ?a := None))"
        using True d by (simp add: clean_loop.simps [of d c i] Let_def)
      also have "\<dots> = (q, [?a] @ s, (\<lambda>x. if x \<in> c ` set s then None else (occ(c ?a := None)) x))"
        using clean_loop_split [of d c "Suc i" ?p "[?a]" "occ(c ?a := None)" occ]
        by (simp add: res)
      finally have e: "p' = q" "r = ?a # s" using less.prems by auto
      from less.hyps [OF m res] have ih: "mset ?p = mset q + mset s" "\<forall>a\<in>set s. d a"
        by auto
      have "?a \<in> set p" using True by simp
      then have mp: "mset p = add_mset ?a (mset q + mset s)"
        unfolding ih(1) [symmetric] by simp
      show ?thesis
        unfolding e mp using ih(2) d by simp
    qed
  qed
qed

lemma scan_pool_mset:
  "mset p = mset (fst (scan_pool d p)) + mset (snd (scan_pool d p))"
  "a \<in> set (snd (scan_pool d p)) \<Longrightarrow> d a"
proof -
  obtain p' r o' where a: "clean_loop d (\<lambda>a. (0, 0)) 0 (p, [], (\<lambda>c. None)) = (p', r, o')"
    by (cases "clean_loop d (\<lambda>a. (0, 0)) 0 (p, [], (\<lambda>c. None))")
  from clean_loop_mset [OF a] show "mset p = mset (fst (scan_pool d p)) + mset (snd (scan_pool d p))"
    by (simp add: scan_pool_def a)
  from clean_loop_mset [OF a] show "a \<in> set (snd (scan_pool d p)) \<Longrightarrow> d a"
    by (simp add: scan_pool_def a)
qed

lemma scan_pool_set:
  "set (fst (scan_pool d p)) \<subseteq> set p"
  "set (snd (scan_pool d p)) \<subseteq> set p"
  "set p = set (fst (scan_pool d p)) \<union> set (snd (scan_pool d p))"
proof -
  have "set_mset (mset p) = set_mset (mset (fst (scan_pool d p)) + mset (snd (scan_pool d p)))"
    using scan_pool_mset(1) [of p d] by simp
  then show "set p = set (fst (scan_pool d p)) \<union> set (snd (scan_pool d p))" by simp
  then show "set (fst (scan_pool d p)) \<subseteq> set p" "set (snd (scan_pool d p)) \<subseteq> set p"
    by auto
qed

lemma mset_active_clean_up:
  "mset (active g) = mset (active (clean_up g)) + mset (removed g)"
  using scan_pool_mset(1) [of "playerAs g" "arrived g"]
        scan_pool_mset(1) [of "playerBs g" "arrived g"]
        scan_pool_mset(1) [of "playerCs g" "expired g"]
  by (simp add: active_def removed_def clean_up_pools)

section \<open>What the methods change\<close>

lemma active_fields [simp]:
  "active (set_cell a c g) = active g"
  "active (set_occupant c v g) = active g"
  "active (set_moved a b g) = active g"
  "active (append_move a m g) = active g"
  "active (incr_move_count a g) = active g"
  "active (step_to a c g) = active g"
  "active (swap_cells a p c g) = active g"
  by (simp_all add: active_def)

lemma in_grid_fields [simp]:
  "in_grid (set_moved a b g) = in_grid g"
  "in_grid (append_move a m g) = in_grid g"
  "in_grid (incr_move_count a g) = in_grid g"
  "in_grid (step_to a c g) = in_grid g"
  "in_grid (swap_cells a p c g) = in_grid g"
  "in_grid (clean_up g) = in_grid g"
  by (simp_all add: in_grid_def fun_eq_iff)

lemma adjacent_initialize_cong:
  "width g' = width g \<Longrightarrow> height g' = height g \<Longrightarrow>
   adjacent (initialize g') = adjacent (initialize g)"
  by (simp add: initialize_def Let_def)

lemma linked_cong:
  "adjacent g' = adjacent g \<Longrightarrow> width g' = width g \<Longrightarrow> height g' = height g \<Longrightarrow>
   linked g' = linked g"
  using adjacent_initialize_cong [of g' g] by (simp add: linked_def)

lemma linked_fields [simp]:
  "linked (set_moved a b g) = linked g"
  "linked (append_move a m g) = linked g"
  "linked (incr_move_count a g) = linked g"
  "linked (step_to a c g) = linked g"
  "linked (swap_cells a p c g) = linked g"
  "linked (clean_up g) = linked g"
  by (rule linked_cong; simp)+

lemma linked_adjacent:
  assumes "linked g" "in_grid g c"
  shows "adjacent g c = filter (in_grid g) (moore9 c)"
  using assms adjacent_initialize [of g c] by (simp add: linked_def)

lemma linked_adjacent_in_grid:
  assumes "linked g" "in_grid g c" "c' \<in> set (adjacent g c)"
  shows "in_grid g c'"
  using assms by (simp add: linked_adjacent)

lemma linked_adjacent_self:
  assumes "linked g" "in_grid g c"
  shows "c \<in> set (adjacent g c)"
  using assms by (cases c) (simp add: linked_adjacent moore9_def)

subsection \<open>The occupancy invariant under single assignments and moves\<close>

lemma occupancy_inv_cong:
  assumes "active g' = active g" "occupant g' = occupant g"
    and "\<And>a. cell (agents g' a) = cell (agents g a)"
  shows "occupancy_inv g' = occupancy_inv g"
  by (simp add: occupancy_inv_def assms)

lemma occupancy_inv_flags [simp]:
  "occupancy_inv (set_moved a b g) = occupancy_inv g"
  "occupancy_inv (append_move a m g) = occupancy_inv g"
  "occupancy_inv (incr_move_count a g) = occupancy_inv g"
  by (rule occupancy_inv_cong; simp)+

lemma placed_cong:
  assumes "active g' = active g" "in_grid g' = in_grid g"
    and "\<And>a. cell (agents g' a) = cell (agents g a)"
  shows "placed g' = placed g"
  by (simp add: placed_def assms)

lemma placed_flags [simp]:
  "placed (set_moved a b g) = placed g"
  "placed (append_move a m g) = placed g"
  "placed (incr_move_count a g) = placed g"
  by (rule placed_cong; simp)+

lemma occupancy_inv_step_to:
  assumes "occupancy_inv g" "self \<in> set (active g)" "occupant g c = None"
  shows "occupancy_inv (step_to self c g)"
  unfolding occupancy_inv_def
proof (intro conjI ballI)
  show "distinct (active (step_to self c g))"
    using assms by (simp add: occupancy_inv_def)
next
  fix a
  assume "a \<in> set (active (step_to self c g))"
  then have a: "a \<in> set (active g)" by simp
  with assms have oa: "occupant g (cell (agents g a)) = Some a"
    and os: "occupant g (cell (agents g self)) = Some self"
    by (auto simp: occupancy_inv_def)
  show "occupant (step_to self c g) (cell (agents (step_to self c g) a)) = Some a"
  proof (cases "a = self")
    case True
    then show ?thesis by simp
  next
    case False
    with oa os assms(3) have "cell (agents g a) \<noteq> c" "cell (agents g a) \<noteq> cell (agents g self)"
      by auto
    with False oa show ?thesis by simp
  qed
qed

lemma occupancy_inv_swap_cells:
  assumes "occupancy_inv g" "self \<in> set (active g)" "occupant g b = Some partner"
  shows "occupancy_inv (swap_cells self partner b g)"
  unfolding occupancy_inv_def
proof (intro conjI ballI)
  show "distinct (active (swap_cells self partner b g))"
    using assms by (simp add: occupancy_inv_def)
next
  fix a
  assume "a \<in> set (active (swap_cells self partner b g))"
  then have a: "a \<in> set (active g)" by simp
  with assms have oa: "occupant g (cell (agents g a)) = Some a"
    and os: "occupant g (cell (agents g self)) = Some self"
    by (auto simp: occupancy_inv_def)
  let ?prev = "cell (agents g self)"
  show "occupant (swap_cells self partner b g) (cell (agents (swap_cells self partner b g) a)) = Some a"
  proof (cases "partner = self")
    case True
    show ?thesis
    proof (cases "a = self")
      case True
      with \<open>partner = self\<close> show ?thesis by (simp add: Let_def)
    next
      case False
      with oa os have "cell (agents g a) \<noteq> ?prev" by auto
      moreover from False oa assms(3) True have "cell (agents g a) \<noteq> b" by auto
      ultimately show ?thesis using False True oa by (simp add: Let_def)
    qed
  next
    case ps: False
    with os assms(3) have bp: "b \<noteq> ?prev" by auto
    consider "a = self" | "a = partner" "a \<noteq> self" | "a \<noteq> self" "a \<noteq> partner" by blast
    then show ?thesis
    proof cases
      case 1
      with ps bp show ?thesis by (simp add: Let_def)
    next
      case 2
      then show ?thesis by (simp add: Let_def)
    next
      case 3
      with oa os assms(3) have "cell (agents g a) \<noteq> ?prev" "cell (agents g a) \<noteq> b" by auto
      with 3 oa show ?thesis by (simp add: Let_def)
    qed
  qed
qed

lemma placed_step_to:
  assumes "placed g" "in_grid g c"
  shows "placed (step_to self c g)"
  using assms by (simp add: placed_def)

lemma placed_swap_cells:
  assumes "placed g" "in_grid g b" "in_grid g (cell (agents g self))"
  shows "placed (swap_cells self partner b g)"
  using assms by (simp add: placed_def Let_def)

subsection \<open>The ranked choices and the lookup\<close>

lemma length_rank_choices [simp]: "length (rank_choices des cs) = length cs"
  by (simp add: rank_choices_def)

lemma rank_choices_eq_Nil [simp]: "rank_choices des cs = [] \<longleftrightarrow> cs = []"
  using length_rank_choices [of des cs] by (metis length_0_conv)

lemma rank_choices_first_in:
  assumes "cs \<noteq> []"
  shows "fst (rank_choices des cs ! 0) \<in> set cs"
proof -
  have "rank_choices des cs ! 0 \<in> set (rank_choices des cs)"
    using assms by (intro nth_mem) simp
  then show ?thesis
    by (auto simp: rank_choices_def Let_def)
qed

lemma find_best_choice_foldl:
  "foldl (\<lambda>best_choice c. if c = coords then Some c else best_choice) init adj =
     (if coords \<in> set adj then Some coords else init)"
  by (induction adj arbitrary: init) auto

lemma find_best_choice_eq:
  "find_best_choice coords adj = (if coords \<in> set adj then Some coords else None)"
  by (simp add: find_best_choice_def find_best_choice_foldl)

subsection \<open>The shape of each method's result\<close>

lemma symbol_eq_D [simp]: "symbol k = ''D'' \<longleftrightarrow> k = TypeD"
  by (cases k) simp_all

lemma TypeA_move_shape:
  obtains (idle) "moved (agents g self)" "TypeA_move self g = g"
  | (stay) m where "\<not> moved (agents g self)"
      "TypeA_move self g = set_moved self True (append_move self m g)"
  | (go) c m where "\<not> moved (agents g self)"
      "c \<in> set (adjacent g (cell (agents g self)))" "occupant g c = None"
      "TypeA_move self g = set_moved self True (append_move self m (step_to self c g))"
proof (cases "moved (agents g self)")
  case True
  then show ?thesis using idle by (simp add: TypeA_move_def)
next
  case False
  let ?cs = "filter (\<lambda>j. occupant g j = None \<and> j \<noteq> cell (agents g self) \<and> Cell_symbol j \<noteq> ''D'')
               (adjacent g (cell (agents g self)))"
  show ?thesis
  proof (cases "?cs = []")
    case True
    with False have "TypeA_move self g =
        set_moved self True (append_move self (cell (agents g self), cell (agents g self)) g)"
      by (simp add: TypeA_move_def Let_def)
    then show ?thesis using stay False by blast
  next
    case ne: False
    let ?c = "fst (rank_choices (end_cell (agents g self)) ?cs ! 0)"
    have "?c \<in> set ?cs" using ne by (rule rank_choices_first_in)
    then have "?c \<in> set (adjacent g (cell (agents g self)))" "occupant g ?c = None" by auto
    moreover have "TypeA_move self g =
        set_moved self True (append_move self (cell (agents g self), ?c) (step_to self ?c g))"
      using False ne by (simp add: TypeA_move_def Let_def)
    ultimately show ?thesis using go False by blast
  qed
qed

lemma TypeC_move2_shape:
  obtains (idle) "moved (agents g self)" "TypeC_move2 self g = g"
  | (stay) m where "\<not> moved (agents g self)"
      "TypeC_move2 self g = set_moved self True (append_move self m g)"
  | (go) c m where "\<not> moved (agents g self)"
      "c \<in> set (adjacent g (cell (agents g self)))" "occupant g c = None"
      "TypeC_move2 self g = set_moved self True (append_move self m (step_to self c g))"
proof (cases "moved (agents g self)")
  case True
  then show ?thesis using idle by (simp add: TypeC_move2_def)
next
  case False
  let ?cs = "filter (\<lambda>j. occupant g j = None \<and> j \<noteq> cell (agents g self))
               (adjacent g (cell (agents g self)))"
  show ?thesis
  proof (cases "?cs = []")
    case True
    with False have "TypeC_move2 self g =
        set_moved self True (append_move self (cell (agents g self), cell (agents g self)) g)"
      by (simp add: TypeC_move2_def Let_def)
    then show ?thesis using stay False by blast
  next
    case ne: False
    let ?c = "fst (rank_choices (end_cell (agents g self)) ?cs ! 0)"
    have "?c \<in> set ?cs" using ne by (rule rank_choices_first_in)
    then have "?c \<in> set (adjacent g (cell (agents g self)))" "occupant g ?c = None" by auto
    moreover have "TypeC_move2 self g =
        set_moved self True (append_move self (cell (agents g self), ?c) (step_to self ?c g))"
      using False ne by (simp add: TypeC_move2_def Let_def)
    ultimately show ?thesis using go False by blast
  qed
qed

lemma TypeC_move1_shape:
  obtains (stay) "TypeC_move1 p self g = incr_move_count self g"
  | (go) c m where "c \<in> set (adjacent g (cell (agents g self)))" "occupant g c = None"
      "TypeC_move1 p self g = incr_move_count self (append_move self m (step_to self c g))"
proof -
  let ?cs = "filter (\<lambda>i. occupant g i = None) (adjacent g (cell (agents g self)))"
  show ?thesis
  proof (cases "?cs = []")
    case True
    then have "TypeC_move1 p self g = incr_move_count self g"
      by (simp add: TypeC_move1_def Let_def)
    then show ?thesis using stay by blast
  next
    case ne: False
    let ?c = "?cs ! (p mod length ?cs)"
    have "?c \<in> set ?cs" using ne by (intro nth_mem) simp
    then have "?c \<in> set (adjacent g (cell (agents g self)))" "occupant g ?c = None" by auto
    moreover have "TypeC_move1 p self g =
        incr_move_count self (append_move self (cell (agents g self), ?c) (step_to self ?c g))"
      using ne by (simp add: TypeC_move1_def Let_def)
    ultimately show ?thesis using go by blast
  qed
qed

lemma TypeC_move3_eq:
  "TypeC_move3 self g =
     incr_move_count self (append_move self (cell (agents g self), cell (agents g self)) g)"
  by (simp add: TypeC_move3_def Let_def)

lemma check_swap_result:
  "check_swap flip a c g = (False, g) \<or>
   (klass (agents g a) \<noteq> TypeC \<and> \<not> moved (agents g a) \<and>
    check_swap flip a c g = (True, set_moved a True g)) \<or>
   (klass (agents g a) = TypeC \<and> check_swap flip a c g = (True, g))"
  by (cases "klass (agents g a)")
     (simp_all add: check_swap_def TypeA_check_swap_def TypeB_check_swap_def
        TypeC_check_swap_def TypeD_check_swap_def Let_def)

lemma check_swap_shape:
  obtains (decline) "check_swap flip a c g = (False, g)"
  | (accept) "klass (agents g a) \<noteq> TypeC" "\<not> moved (agents g a)"
      "check_swap flip a c g = (True, set_moved a True g)"
  | (coin) "klass (agents g a) = TypeC" "check_swap flip a c g = (True, g)"
  using check_swap_result [of flip a c g] by blast

lemma TypeB_shortest_path_between_in:
  assumes "\<not> moved (agents g self)"
  obtains coords where "TypeB_shortest_path_between self g = Inr coords"
    "coords \<in> set (adjacent g (cell (agents g self))) \<or> coords = cell (agents g self)"
proof -
  let ?cs = "filter (\<lambda>j. j \<noteq> cell (agents g self) \<and> Cell_symbol j \<noteq> ''D'')
               (adjacent g (cell (agents g self)))"
  show ?thesis
  proof (cases "?cs = []")
    case True
    with assms have "TypeB_shortest_path_between self g = Inr (cell (agents g self))"
      by (simp add: TypeB_shortest_path_between_def Let_def)
    then show ?thesis using that by blast
  next
    case ne: False
    let ?c = "fst (rank_choices (end_cell (agents g self)) ?cs ! 0)"
    have "?c \<in> set ?cs" using ne by (rule rank_choices_first_in)
    then have "?c \<in> set (adjacent g (cell (agents g self)))" by auto
    moreover have "TypeB_shortest_path_between self g = Inr ?c"
      using assms ne by (simp add: TypeB_shortest_path_between_def Let_def)
    ultimately show ?thesis using that by blast
  qed
qed

lemma TypeB_move_shape:
  obtains (idle) "moved (agents g self)" "TypeB_move flip self g = Inr g"
  | (fail) coords where "\<not> moved (agents g self)"
      "TypeB_shortest_path_between self g = Inr coords"
      "coords \<notin> set (adjacent g (cell (agents g self)))"
      "TypeB_move flip self g = Inl AttributeError"
  | (go) bc m where "\<not> moved (agents g self)"
      "bc \<in> set (adjacent g (cell (agents g self)))" "occupant g bc = None"
      "TypeB_move flip self g = Inr (set_moved self True (append_move self m (step_to self bc g)))"
  | (declined) bc partner accepted g' m where "\<not> moved (agents g self)"
      "bc \<in> set (adjacent g (cell (agents g self)))" "occupant g bc = Some partner"
      "check_swap flip partner (cell (agents g self)) g = (accepted, g')"
      "\<not> accepted \<or> klass (agents g partner) = TypeD"
      "TypeB_move flip self g = Inr (set_moved self True (append_move self m g'))"
  | (swapped) bc partner g' m where "\<not> moved (agents g self)"
      "bc \<in> set (adjacent g (cell (agents g self)))" "occupant g bc = Some partner"
      "check_swap flip partner (cell (agents g self)) g = (True, g')"
      "klass (agents g partner) \<noteq> TypeD"
      "TypeB_move flip self g =
         Inr (set_moved self True (append_move self m (swap_cells self partner bc g')))"
proof (cases "moved (agents g self)")
  case True
  then show ?thesis using idle by (simp add: TypeB_move_def)
next
  case nm: False
  from TypeB_shortest_path_between_in [OF nm]
  obtain coords where sp: "TypeB_shortest_path_between self g = Inr coords" by blast
  show ?thesis
  proof (cases "coords \<in> set (adjacent g (cell (agents g self)))")
    case False
    with nm sp have "TypeB_move flip self g = Inl AttributeError"
      by (simp add: TypeB_move_def find_best_choice_eq)
    with nm sp False show ?thesis using fail by blast
  next
    case inl: True
    show ?thesis
    proof (cases "occupant g coords")
      case None
      with nm sp inl have "TypeB_move flip self g =
          Inr (set_moved self True (append_move self (cell (agents g self), coords)
                 (step_to self coords g)))"
        by (simp add: TypeB_move_def find_best_choice_eq Let_def)
      with nm inl None show ?thesis using go by blast
    next
      case (Some partner)
      obtain accepted g' where cs:
        "check_swap flip partner (cell (agents g self)) g = (accepted, g')"
        by (cases "check_swap flip partner (cell (agents g self)) g")
      have k: "klass (agents g' partner) = klass (agents g partner)"
        using cs by (cases rule: check_swap_shape [of flip partner "cell (agents g self)" g]) auto
      show ?thesis
      proof (cases "accepted \<and> klass (agents g partner) \<noteq> TypeD")
        case True
        with nm sp inl Some cs k have eq: "TypeB_move flip self g =
            Inr (set_moved self True (append_move self
                   (cell (agents g self), cell (agents (swap_cells self partner coords g') self))
                   (swap_cells self partner coords g')))"
          by (simp add: TypeB_move_def find_best_choice_eq Let_def)
        from True cs have cs': "check_swap flip partner (cell (agents g self)) g = (True, g')"
          and kd: "klass (agents g partner) \<noteq> TypeD"
          by simp_all
        show ?thesis by (rule swapped [OF nm inl Some cs' kd eq])
      next
        case False
        with nm sp inl Some cs k have eq: "TypeB_move flip self g =
            Inr (set_moved self True (append_move self
                   (cell (agents g self), cell (agents g' self)) g'))"
          by (auto simp add: TypeB_move_def find_best_choice_eq Let_def)
        from False have na: "\<not> accepted \<or> klass (agents g partner) = TypeD"
          by simp
        show ?thesis by (rule declined [OF nm inl Some cs na eq])
      qed
    qed
  qed
qed

subsection \<open>The frame of each method\<close>

lemma frame_refl [simp]: "frame g g"
  by (simp add: frame_def)

lemma frame_trans: "frame g g' \<Longrightarrow> frame g' g'' \<Longrightarrow> frame g g''"
  by (simp add: frame_def)

lemma frame_flags [simp]:
  "frame g (set_moved a True g)"
  "frame g (append_move a m g)"
  "frame g (incr_move_count a g)"
  by (simp_all add: frame_def)

lemma frame_step_to: "frame g (step_to self c g)"
  by (auto simp: frame_def)

lemma frame_swap_cells: "frame g (swap_cells self partner b g)"
  by (auto simp: frame_def Let_def)

lemma check_swap_same:
  assumes "check_swap flip a c g = (ok, g')"
  shows "g' = g \<or> g' = set_moved a True g"
  using assms check_swap_result [of flip a c g] by auto

lemma frame_check_swap:
  assumes "check_swap flip a c g = (ok, g')"
  shows "frame g g'"
  using check_swap_same [OF assms] by auto

lemma frame_linked: "frame g g' \<Longrightarrow> linked g' = linked g"
  by (rule linked_cong) (simp_all add: frame_def)

lemma frame_in_grid: "frame g g' \<Longrightarrow> in_grid g' = in_grid g"
  by (simp add: frame_def in_grid_def fun_eq_iff)

lemma frame_active: "frame g g' \<Longrightarrow> active g' = active g"
  by (simp add: frame_def active_def)

lemma frame_TypeA_move: "frame g (TypeA_move self g)"
proof (cases rule: TypeA_move_shape [of g self])
  case idle
  then show ?thesis by simp
next
  case (stay m)
  have "frame g (append_move self m g)" by simp
  moreover have "frame (append_move self m g) (set_moved self True (append_move self m g))"
    by simp
  ultimately show ?thesis unfolding stay(2) by (rule frame_trans)
next
  case (go c m)
  have "frame g (step_to self c g)" by (rule frame_step_to)
  moreover have "frame (step_to self c g) (append_move self m (step_to self c g))" by simp
  moreover have "frame (append_move self m (step_to self c g))
                   (set_moved self True (append_move self m (step_to self c g)))" by simp
  ultimately show ?thesis unfolding go(4) by (blast intro: frame_trans)
qed

lemma frame_TypeC_move2: "frame g (TypeC_move2 self g)"
proof (cases rule: TypeC_move2_shape [of g self])
  case idle
  then show ?thesis by simp
next
  case (stay m)
  have "frame g (append_move self m g)" by simp
  moreover have "frame (append_move self m g) (set_moved self True (append_move self m g))"
    by simp
  ultimately show ?thesis unfolding stay(2) by (rule frame_trans)
next
  case (go c m)
  have "frame g (step_to self c g)" by (rule frame_step_to)
  moreover have "frame (step_to self c g) (append_move self m (step_to self c g))" by simp
  moreover have "frame (append_move self m (step_to self c g))
                   (set_moved self True (append_move self m (step_to self c g)))" by simp
  ultimately show ?thesis unfolding go(4) by (blast intro: frame_trans)
qed

lemma frame_TypeC_move1: "frame g (TypeC_move1 p self g)"
proof (cases rule: TypeC_move1_shape [of p self g])
  case stay
  then show ?thesis by simp
next
  case (go c m)
  have "frame g (step_to self c g)" by (rule frame_step_to)
  moreover have "frame (step_to self c g) (append_move self m (step_to self c g))" by simp
  moreover have "frame (append_move self m (step_to self c g))
                   (incr_move_count self (append_move self m (step_to self c g)))" by simp
  ultimately show ?thesis unfolding go(3) by (blast intro: frame_trans)
qed

lemma frame_TypeC_move3: "frame g (TypeC_move3 self g)"
  unfolding TypeC_move3_eq
  by (rule frame_trans [of _ "append_move self (cell (agents g self), cell (agents g self)) g"])
     simp_all

lemma frame_TypeB_move:
  assumes "TypeB_move flip self g = Inr g'"
  shows "frame g g'"
proof (cases rule: TypeB_move_shape [of g self flip])
  case idle
  with assms show ?thesis by simp
next
  case (fail coords)
  with assms show ?thesis by simp
next
  case (go bc m)
  have "frame g (step_to self bc g)" by (rule frame_step_to)
  moreover have "frame (step_to self bc g) (append_move self m (step_to self bc g))" by simp
  moreover have "frame (append_move self m (step_to self bc g))
                   (set_moved self True (append_move self m (step_to self bc g)))" by simp
  ultimately have "frame g (set_moved self True (append_move self m (step_to self bc g)))"
    by (blast intro: frame_trans)
  with go(4) assms show ?thesis by simp
next
  case (declined bc partner accepted g1 m)
  have "frame g g1" using declined(4) by (rule frame_check_swap)
  moreover have "frame g1 (append_move self m g1)" by simp
  moreover have "frame (append_move self m g1) (set_moved self True (append_move self m g1))"
    by simp
  ultimately have "frame g (set_moved self True (append_move self m g1))"
    by (blast intro: frame_trans)
  with declined(6) assms show ?thesis by simp
next
  case (swapped bc partner g1 m)
  have f1: "frame g g1" using swapped(4) by (rule frame_check_swap)
  have "frame g1 (swap_cells self partner bc g1)" by (rule frame_swap_cells)
  moreover have "frame (swap_cells self partner bc g1)
                   (append_move self m (swap_cells self partner bc g1))" by simp
  moreover have "frame (append_move self m (swap_cells self partner bc g1))
                   (set_moved self True (append_move self m (swap_cells self partner bc g1)))"
    by simp
  ultimately have "frame g (set_moved self True (append_move self m (swap_cells self partner bc g1)))"
    using f1 by (blast intro: frame_trans)
  with swapped(6) assms show ?thesis by simp
qed

lemma moved_after_TypeA_move: "moved (agents (TypeA_move self g) self)"
  by (cases rule: TypeA_move_shape [of g self]) simp_all

lemma moved_after_TypeB_move:
  "TypeB_move flip self g = Inr g' \<Longrightarrow> moved (agents g' self)"
  by (cases rule: TypeB_move_shape [of g self flip]) auto

subsection \<open>Whose cell a method changes\<close>

lemma cell_other_TypeA_move:
  "x \<noteq> self \<Longrightarrow> cell (agents (TypeA_move self g) x) = cell (agents g x)"
  by (cases rule: TypeA_move_shape [of g self]) simp_all

lemma cell_other_TypeC_move2:
  "x \<noteq> self \<Longrightarrow> cell (agents (TypeC_move2 self g) x) = cell (agents g x)"
  by (cases rule: TypeC_move2_shape [of g self]) simp_all

lemma cell_other_TypeC_move1:
  "x \<noteq> self \<Longrightarrow> cell (agents (TypeC_move1 p self g) x) = cell (agents g x)"
  by (cases rule: TypeC_move1_shape [of p self g]) simp_all

lemma cell_TypeC_move3: "cell (agents (TypeC_move3 self g) x) = cell (agents g x)"
  by (simp add: TypeC_move3_eq)

lemma cell_check_swap:
  assumes "check_swap flip a c g = (ok, g')"
  shows "cell (agents g' x) = cell (agents g x)"
  using check_swap_same [OF assms] by auto

lemma cell_other_TypeB_move:
  assumes "TypeB_move flip self g = Inr g'" "x \<noteq> self" "klass (agents g x) = TypeD"
  shows "cell (agents g' x) = cell (agents g x)"
proof (cases rule: TypeB_move_shape [of g self flip])
  case idle
  with assms show ?thesis by simp
next
  case (fail coords)
  with assms show ?thesis by simp
next
  case (go bc m)
  with assms show ?thesis by auto
next
  case (declined bc partner accepted g1 m)
  with assms cell_check_swap [OF declined(4), of x] show ?thesis by auto
next
  case (swapped bc partner g1 m)
  with assms have "x \<noteq> partner" by auto
  with swapped assms cell_check_swap [OF swapped(4), of x] show ?thesis
    by (auto simp: Let_def)
qed

subsection \<open>The occupancy invariant under each method\<close>

lemma occupancy_inv_TypeA_move:
  assumes "occupancy_inv g" "self \<in> set (active g)"
  shows "occupancy_inv (TypeA_move self g)"
  by (cases rule: TypeA_move_shape [of g self])
     (simp_all add: assms occupancy_inv_step_to)

lemma occupancy_inv_TypeC_move2:
  assumes "occupancy_inv g" "self \<in> set (active g)"
  shows "occupancy_inv (TypeC_move2 self g)"
  by (cases rule: TypeC_move2_shape [of g self])
     (simp_all add: assms occupancy_inv_step_to)

lemma occupancy_inv_TypeC_move1:
  assumes "occupancy_inv g" "self \<in> set (active g)"
  shows "occupancy_inv (TypeC_move1 p self g)"
  by (cases rule: TypeC_move1_shape [of p self g])
     (simp_all add: assms occupancy_inv_step_to)

lemma occupancy_inv_TypeC_move3:
  assumes "occupancy_inv g"
  shows "occupancy_inv (TypeC_move3 self g)"
  using assms by (simp add: TypeC_move3_eq)

lemma occupancy_inv_check_swap:
  assumes "check_swap flip a c g = (ok, g')"
  shows "occupancy_inv g' = occupancy_inv g" "active g' = active g" "occupant g' = occupant g"
    "placed g' = placed g" "in_grid g' = in_grid g"
    "cell (agents g' x) = cell (agents g x)"
  using check_swap_same [OF assms] by auto

lemma occupancy_inv_TypeB_move:
  assumes "occupancy_inv g" "self \<in> set (active g)" "TypeB_move flip self g = Inr g'"
  shows "occupancy_inv g'"
proof (cases rule: TypeB_move_shape [of g self flip])
  case idle
  with assms show ?thesis by simp
next
  case (fail coords)
  with assms show ?thesis by simp
next
  case (go bc m)
  with assms show ?thesis by (auto simp: occupancy_inv_step_to)
next
  case (declined bc partner accepted g1 m)
  with assms occupancy_inv_check_swap(1) [OF declined(4)] show ?thesis by auto
next
  case (swapped bc partner g1 m)
  note cs = occupancy_inv_check_swap [OF swapped(4)]
  have "occupancy_inv (swap_cells self partner bc g1)"
    by (rule occupancy_inv_swap_cells) (simp_all add: cs assms swapped)
  with swapped(6) assms(3) show ?thesis by auto
qed

subsection \<open>Agents stay on the grid\<close>

lemma placed_TypeA_move:
  assumes "linked g" "placed g" "self \<in> set (active g)"
  shows "placed (TypeA_move self g)"
proof -
  have s: "in_grid g (cell (agents g self))" using assms by (simp add: placed_def)
  show ?thesis
    by (cases rule: TypeA_move_shape [of g self])
       (simp_all add: assms placed_step_to linked_adjacent_in_grid [OF assms(1) s])
qed

lemma placed_TypeC_move2:
  assumes "linked g" "placed g" "self \<in> set (active g)"
  shows "placed (TypeC_move2 self g)"
proof -
  have s: "in_grid g (cell (agents g self))" using assms by (simp add: placed_def)
  show ?thesis
    by (cases rule: TypeC_move2_shape [of g self])
       (simp_all add: assms placed_step_to linked_adjacent_in_grid [OF assms(1) s])
qed

lemma placed_TypeC_move1:
  assumes "linked g" "placed g" "self \<in> set (active g)"
  shows "placed (TypeC_move1 p self g)"
proof -
  have s: "in_grid g (cell (agents g self))" using assms by (simp add: placed_def)
  show ?thesis
    by (cases rule: TypeC_move1_shape [of p self g])
       (simp_all add: assms placed_step_to linked_adjacent_in_grid [OF assms(1) s])
qed

lemma placed_TypeC_move3:
  assumes "placed g"
  shows "placed (TypeC_move3 self g)"
  using assms by (simp add: TypeC_move3_eq)

lemma placed_TypeB_move:
  assumes "linked g" "placed g" "self \<in> set (active g)" "TypeB_move flip self g = Inr g'"
  shows "placed g'"
proof -
  have s: "in_grid g (cell (agents g self))" using assms by (simp add: placed_def)
  note adj = linked_adjacent_in_grid [OF assms(1) s]
  show ?thesis
  proof (cases rule: TypeB_move_shape [of g self flip])
    case idle
    with assms show ?thesis by simp
  next
    case (fail coords)
    with assms show ?thesis by simp
  next
    case (go bc m)
    have "placed (step_to self bc g)"
      by (rule placed_step_to [OF assms(2) adj [OF go(2)]])
    with go(4) assms(4) show ?thesis by auto
  next
    case (declined bc partner accepted g1 m)
    with assms occupancy_inv_check_swap(4) [OF declined(4)] show ?thesis by auto
  next
    case (swapped bc partner g1 m)
    note cs = occupancy_inv_check_swap [OF swapped(4)]
    have "placed (swap_cells self partner bc g1)"
      by (rule placed_swap_cells) (simp_all add: cs assms swapped adj s)
    with swapped(6) assms(4) show ?thesis by auto
  qed
qed

lemma TypeB_move_total:
  assumes "linked g" "in_grid g (cell (agents g self))"
  shows "\<exists>g'. TypeB_move flip self g = Inr g'"
proof (cases rule: TypeB_move_shape [of g self flip])
  case (fail coords)
  from TypeB_shortest_path_between_in [OF fail(1)]
  obtain c where "TypeB_shortest_path_between self g = Inr c"
    "c \<in> set (adjacent g (cell (agents g self))) \<or> c = cell (agents g self)"
    by blast
  with fail(2) have "coords \<in> set (adjacent g (cell (agents g self))) \<or> coords = cell (agents g self)"
    by simp
  with fail(3) linked_adjacent_self [OF assms] show ?thesis by auto
qed auto

section \<open>Cleanup, shuffles and loops\<close>

lemma distinct_mset_split:
  assumes "mset xs = mset ys + mset zs" "distinct xs"
  shows "distinct ys" "set ys \<inter> set zs = {}" "set ys \<subseteq> set xs" "set zs \<subseteq> set xs"
proof -
  from assms(1) have m: "mset xs = mset (ys @ zs)" by simp
  from mset_eq_imp_distinct_iff [OF m] assms(2) have d: "distinct (ys @ zs)" by simp
  from mset_eq_setD [OF m] have s: "set xs = set (ys @ zs)" .
  from d show "distinct ys" "set ys \<inter> set zs = {}" by simp_all
  from s show "set ys \<subseteq> set xs" "set zs \<subseteq> set xs" by auto
qed

lemma set_pools_clean_up:
  "set (playerAs (clean_up g)) \<subseteq> set (playerAs g)"
  "set (playerBs (clean_up g)) \<subseteq> set (playerBs g)"
  "set (playerCs (clean_up g)) \<subseteq> set (playerCs g)"
  by (simp_all add: clean_up_pools scan_pool_set)

lemma set_active_clean_up: "set (active (clean_up g)) \<subseteq> set (active g)"
  using set_pools_clean_up [of g] by (auto simp: active_def)

lemma occupancy_inv_clean_up:
  assumes "occupancy_inv g"
  shows "occupancy_inv (clean_up g)"
  unfolding occupancy_inv_def
proof (intro conjI ballI)
  from assms have d: "distinct (active g)" by (simp add: occupancy_inv_def)
  note sp = distinct_mset_split [OF mset_active_clean_up d]
  show "distinct (active (clean_up g))" by (rule sp(1))
  fix a
  assume a: "a \<in> set (active (clean_up g))"
  then have ag: "a \<in> set (active g)" using sp(3) by auto
  have nr: "a \<notin> set (removed g)" using a sp(2) by auto
  from assms ag have oa: "occupant g (cell (agents g a)) = Some a"
    by (simp add: occupancy_inv_def)
  have "cell (agents g a) \<notin> (\<lambda>a. cell (agents g a)) ` set (removed g)"
  proof
    assume "cell (agents g a) \<in> (\<lambda>a. cell (agents g a)) ` set (removed g)"
    then obtain r where r: "r \<in> set (removed g)" "cell (agents g r) = cell (agents g a)"
      by auto
    with sp(4) have "r \<in> set (active g)" by auto
    with assms have "occupant g (cell (agents g r)) = Some r"
      by (simp add: occupancy_inv_def)
    with r oa have "r = a" by simp
    with r nr show False by simp
  qed
  then show "occupant (clean_up g) (cell (agents (clean_up g) a)) = Some a"
    using oa by (simp add: clean_up_occupant)
qed

lemma placed_clean_up:
  assumes "placed g"
  shows "placed (clean_up g)"
  using assms set_active_clean_up [of g] by (auto simp: placed_def)

lemma occupancy_inv_mset:
  assumes "mset (active g') = mset (active g)" "occupant g' = occupant g" "agents g' = agents g"
  shows "occupancy_inv g' = occupancy_inv g"
  using mset_eq_imp_distinct_iff [OF assms(1)] mset_eq_setD [OF assms(1)]
  by (simp add: occupancy_inv_def assms(2,3))

lemma placed_mset:
  assumes "mset (active g') = mset (active g)" "in_grid g' = in_grid g" "agents g' = agents g"
  shows "placed g' = placed g"
  using mset_eq_setD [OF assms(1)] by (simp add: placed_def assms(2,3))

lemma foldl_invariant:
  assumes "I g" "\<And>s a. a \<in> set xs \<Longrightarrow> I s \<Longrightarrow> I (f s a)"
  shows "I (foldl f g xs)"
  using assms by (induction xs arbitrary: g) simp_all

lemma for_each_invariant:
  assumes "for_each body xs g = Inr g'" "I g"
    and "\<And>s a s'. a \<in> set xs \<Longrightarrow> I s \<Longrightarrow> body a s = Inr s' \<Longrightarrow> I s'"
  shows "I g'"
  using assms
proof (induction xs arbitrary: g)
  case Nil
  then show ?case by simp
next
  case (Cons x xs)
  from Cons.prems(1) obtain g1 where g1: "body x g = Inr g1" "for_each body xs g1 = Inr g'"
    by (auto split: sum.splits)
  have i1: "I g1" using Cons.prems(3) [of x g g1] Cons.prems(2) g1(1) by simp
  show ?case
  proof (rule Cons.IH [OF g1(2) i1])
    fix s a s'
    assume "a \<in> set xs" "I s" "body a s = Inr s'"
    then show "I s'" using Cons.prems(3) [of a s s'] by simp
  qed
qed

lemma for_each_total:
  assumes "I g" "\<And>s a. a \<in> set xs \<Longrightarrow> I s \<Longrightarrow> \<exists>s'. body a s = Inr s' \<and> I s'"
  shows "\<exists>g'. for_each body xs g = Inr g'"
  using assms
proof (induction xs arbitrary: g)
  case Nil
  then show ?case by simp
next
  case (Cons x xs)
  from Cons.prems(2) [of x g] Cons.prems(1) obtain g1 where g1: "body x g = Inr g1" "I g1"
    by auto
  have "\<exists>g'. for_each body xs g1 = Inr g'"
  proof (rule Cons.IH [OF g1(2)])
    fix s a
    assume "a \<in> set xs" "I s"
    then show "\<exists>s'. body a s = Inr s' \<and> I s'" using Cons.prems(2) [of a s] by simp
  qed
  with g1(1) show ?case by simp
qed

section \<open>The board invariant over a turn\<close>

lemma board_invI:
  assumes "occupancy_inv g" "w \<Longrightarrow> linked g" "w \<Longrightarrow> placed g"
  shows "board_inv w g"
  using assms by (simp add: board_inv_def)

lemma board_invD:
  assumes "board_inv w g"
  shows "occupancy_inv g" "w \<Longrightarrow> linked g" "w \<Longrightarrow> placed g"
  using assms by (simp_all add: board_inv_def)

lemma board_inv_TypeA_move:
  assumes "board_inv w g" "self \<in> set (active g)"
  shows "board_inv w (TypeA_move self g)"
proof (rule board_invI)
  note d = board_invD [OF assms(1)]
  show "occupancy_inv (TypeA_move self g)"
    by (rule occupancy_inv_TypeA_move [OF d(1) assms(2)])
  show "linked (TypeA_move self g)" if w
    using d(2) [OF that] frame_linked [OF frame_TypeA_move, of self g] by simp
  show "placed (TypeA_move self g)" if w
    by (rule placed_TypeA_move [OF d(2) [OF that] d(3) [OF that] assms(2)])
qed

lemma board_inv_TypeC_move2:
  assumes "board_inv w g" "self \<in> set (active g)"
  shows "board_inv w (TypeC_move2 self g)"
proof (rule board_invI)
  note d = board_invD [OF assms(1)]
  show "occupancy_inv (TypeC_move2 self g)"
    by (rule occupancy_inv_TypeC_move2 [OF d(1) assms(2)])
  show "linked (TypeC_move2 self g)" if w
    using d(2) [OF that] frame_linked [OF frame_TypeC_move2, of self g] by simp
  show "placed (TypeC_move2 self g)" if w
    by (rule placed_TypeC_move2 [OF d(2) [OF that] d(3) [OF that] assms(2)])
qed

lemma board_inv_TypeC_move1:
  assumes "board_inv w g" "self \<in> set (active g)"
  shows "board_inv w (TypeC_move1 p self g)"
proof (rule board_invI)
  note d = board_invD [OF assms(1)]
  show "occupancy_inv (TypeC_move1 p self g)"
    by (rule occupancy_inv_TypeC_move1 [OF d(1) assms(2)])
  show "linked (TypeC_move1 p self g)" if w
    using d(2) [OF that] frame_linked [OF frame_TypeC_move1, of p self g] by simp
  show "placed (TypeC_move1 p self g)" if w
    by (rule placed_TypeC_move1 [OF d(2) [OF that] d(3) [OF that] assms(2)])
qed

lemma board_inv_TypeC_move3:
  assumes "board_inv w g"
  shows "board_inv w (TypeC_move3 self g)"
proof (rule board_invI)
  note d = board_invD [OF assms(1)]
  show "occupancy_inv (TypeC_move3 self g)"
    by (rule occupancy_inv_TypeC_move3 [OF d(1)])
  show "linked (TypeC_move3 self g)" if w
    using d(2) [OF that] frame_linked [OF frame_TypeC_move3, of self g] by simp
  show "placed (TypeC_move3 self g)" if w
    by (rule placed_TypeC_move3 [OF d(3) [OF that]])
qed

lemma frame_TypeC_act: "frame g (TypeC_act rnd t n c g)"
  unfolding TypeC_act_def
  using frame_TypeC_move1 [of g "picks rnd c" c] frame_TypeC_move2 [of g c]
    frame_TypeC_move3 [of g c] frame_refl [of g]
  by presburger

lemma board_inv_TypeC_act:
  assumes "board_inv w g" "c \<in> set (active g)"
  shows "board_inv w (TypeC_act rnd t n c g)"
  unfolding TypeC_act_def
  using board_inv_TypeC_move1 [OF assms, of "picks rnd c"] board_inv_TypeC_move2 [OF assms]
    board_inv_TypeC_move3 [OF assms(1), of c] assms(1)
  by presburger

lemma board_inv_TypeB_move:
  assumes "board_inv w g" "self \<in> set (active g)" "TypeB_move flip self g = Inr g'"
  shows "board_inv w g'"
proof (rule board_invI)
  note d = board_invD [OF assms(1)]
  show "occupancy_inv g'"
    by (rule occupancy_inv_TypeB_move [OF d(1) assms(2,3)])
  show "linked g'" if w
    using d(2) [OF that] frame_linked [OF frame_TypeB_move [OF assms(3)]] by simp
  show "placed g'" if w
    by (rule placed_TypeB_move [OF d(2) [OF that] d(3) [OF that] assms(2,3)])
qed

lemma board_inv_clean_up:
  assumes "board_inv w g"
  shows "board_inv w (clean_up g)"
proof (rule board_invI)
  note d = board_invD [OF assms(1)]
  show "occupancy_inv (clean_up g)"
    by (rule occupancy_inv_clean_up [OF d(1)])
  show "linked (clean_up g)" if w
    using d(2) [OF that] by simp
  show "placed (clean_up g)" if w
    by (rule placed_clean_up [OF d(3) [OF that]])
qed

lemma board_inv_reorder:
  assumes "mset (active g') = mset (active g)" "occupant g' = occupant g" "agents g' = agents g"
    and "adjacent g' = adjacent g" "width g' = width g" "height g' = height g"
  shows "board_inv w g' = board_inv w g"
proof -
  have "in_grid g' = in_grid g" by (simp add: in_grid_def fun_eq_iff assms)
  then have "placed g' = placed g"
    by (rule placed_mset [OF assms(1) _ assms(3)])
  moreover have "occupancy_inv g' = occupancy_inv g"
    by (rule occupancy_inv_mset [OF assms(1-3)])
  moreover have "linked g' = linked g"
    by (rule linked_cong [OF assms(4-6)])
  ultimately show ?thesis
    by (simp only: board_inv_def)
qed

lemma board_inv_shuffle:
  assumes "shuffles rnd"
  shows "board_inv w (g\<lparr>playerAs := shuffleA rnd (playerAs g)\<rparr>) = board_inv w g"
    "board_inv w (g\<lparr>playerBs := shuffleB rnd (playerBs g)\<rparr>) = board_inv w g"
    "board_inv w (g\<lparr>playerCs := shuffleC rnd (playerCs g)\<rparr>) = board_inv w g"
proof -
  from assms have a: "mset (shuffleA rnd (playerAs g)) = mset (playerAs g)"
    and b: "mset (shuffleB rnd (playerBs g)) = mset (playerBs g)"
    and c: "mset (shuffleC rnd (playerCs g)) = mset (playerCs g)"
    by (simp_all add: shuffles_def)
  show "board_inv w (g\<lparr>playerAs := shuffleA rnd (playerAs g)\<rparr>) = board_inv w g"
    by (rule board_inv_reorder) (simp_all add: active_def a)
  show "board_inv w (g\<lparr>playerBs := shuffleB rnd (playerBs g)\<rparr>) = board_inv w g"
    by (rule board_inv_reorder) (simp_all add: active_def b)
  show "board_inv w (g\<lparr>playerCs := shuffleC rnd (playerCs g)\<rparr>) = board_inv w g"
    by (rule board_inv_reorder) (simp_all add: active_def c)
qed

lemma board_inv_set_moved [simp]: "board_inv w (set_moved a b g) = board_inv w g"
  by (simp add: board_inv_def)

lemma board_inv_turn [simp]: "board_inv w (g\<lparr>turn := n\<rparr>) = board_inv w g"
  by (rule board_inv_reorder) (simp_all add: active_def)

subsection \<open>The three phases\<close>

lemma frame_foldl_TypeA_move: "frame g (foldl (\<lambda>s a. TypeA_move a s) g xs)"
proof (rule foldl_invariant [where I = "frame g"])
  show "frame g g" by simp
  fix s a
  assume "frame g s"
  then show "frame g (TypeA_move a s)" using frame_TypeA_move [of s a] by (rule frame_trans)
qed

lemma frame_foldl_TypeC_act: "frame g (foldl (\<lambda>s c. TypeC_act rnd t n c s) g xs)"
proof (rule foldl_invariant [where I = "frame g"])
  show "frame g g" by simp
  fix s a
  assume "frame g s"
  then show "frame g (TypeC_act rnd t n a s)" using frame_TypeC_act [of s rnd t n a]
    by (rule frame_trans)
qed

lemma frame_for_each_TypeB_move:
  assumes "for_each (\<lambda>b. TypeB_move (flips b) b) xs g = Inr g'"
  shows "frame g g'"
proof (rule for_each_invariant [OF assms, where I = "frame g"])
  show "frame g g" by simp
  fix s a s'
  assume "frame g s" "TypeB_move (flips a) a s = Inr s'"
  then show "frame g s'" using frame_TypeB_move [of "flips a" a s s'] by (blast intro: frame_trans)
qed

lemma board_inv_foldl_TypeA_move:
  assumes "board_inv w g" "set xs \<subseteq> set (active g)"
  shows "board_inv w (foldl (\<lambda>s a. TypeA_move a s) g xs)"
proof -
  have "frame g (foldl (\<lambda>s a. TypeA_move a s) g xs) \<and>
        board_inv w (foldl (\<lambda>s a. TypeA_move a s) g xs)"
  proof (rule foldl_invariant [where I = "\<lambda>s. frame g s \<and> board_inv w s"])
    show "frame g g \<and> board_inv w g" using assms(1) by simp
    fix s a
    assume a: "a \<in> set xs" and i: "frame g s \<and> board_inv w s"
    then have "a \<in> set (active s)" using assms(2) frame_active [of g s] by auto
    with i have "board_inv w (TypeA_move a s)" by (simp add: board_inv_TypeA_move)
    moreover have "frame g (TypeA_move a s)"
      using i frame_TypeA_move [of s a] by (blast intro: frame_trans)
    ultimately show "frame g (TypeA_move a s) \<and> board_inv w (TypeA_move a s)" by simp
  qed
  then show ?thesis by simp
qed

lemma board_inv_foldl_TypeC_act:
  assumes "board_inv w g" "set xs \<subseteq> set (active g)"
  shows "board_inv w (foldl (\<lambda>s c. TypeC_act rnd t n c s) g xs)"
proof -
  have "frame g (foldl (\<lambda>s c. TypeC_act rnd t n c s) g xs) \<and>
        board_inv w (foldl (\<lambda>s c. TypeC_act rnd t n c s) g xs)"
  proof (rule foldl_invariant [where I = "\<lambda>s. frame g s \<and> board_inv w s"])
    show "frame g g \<and> board_inv w g" using assms(1) by simp
    fix s a
    assume a: "a \<in> set xs" and i: "frame g s \<and> board_inv w s"
    then have "a \<in> set (active s)" using assms(2) frame_active [of g s] by auto
    with i have "board_inv w (TypeC_act rnd t n a s)" by (simp add: board_inv_TypeC_act)
    moreover have "frame g (TypeC_act rnd t n a s)"
      using i frame_TypeC_act [of s rnd t n a] by (blast intro: frame_trans)
    ultimately show "frame g (TypeC_act rnd t n a s) \<and> board_inv w (TypeC_act rnd t n a s)"
      by simp
  qed
  then show ?thesis by simp
qed

lemma board_inv_for_each_TypeB_move:
  assumes "board_inv w g" "set xs \<subseteq> set (active g)"
    and "for_each (\<lambda>b. TypeB_move (flips b) b) xs g = Inr g'"
  shows "board_inv w g'"
proof -
  have "frame g g' \<and> board_inv w g'"
  proof (rule for_each_invariant [OF assms(3), where I = "\<lambda>s. frame g s \<and> board_inv w s"])
    show "frame g g \<and> board_inv w g" using assms(1) by simp
    fix s a s'
    assume a: "a \<in> set xs" and i: "frame g s \<and> board_inv w s"
      and m: "TypeB_move (flips a) a s = Inr s'"
    then have "a \<in> set (active s)" using assms(2) frame_active [of g s] by auto
    with i m have "board_inv w s'" by (blast intro: board_inv_TypeB_move)
    moreover have "frame g s'"
      using i frame_TypeB_move [OF m] by (blast intro: frame_trans)
    ultimately show "frame g s' \<and> board_inv w s'" by simp
  qed
  then show ?thesis by simp
qed

lemma for_each_TypeB_move_total:
  assumes "board_inv True g" "set xs \<subseteq> set (active g)"
  shows "\<exists>g'. for_each (\<lambda>b. TypeB_move (flips b) b) xs g = Inr g'"
proof (rule for_each_total [where I = "\<lambda>s. frame g s \<and> board_inv True s"])
  show "frame g g \<and> board_inv True g" using assms(1) by simp
  fix s a
  assume a: "a \<in> set xs" and i: "frame g s \<and> board_inv True s"
  then have act: "a \<in> set (active s)" using assms(2) frame_active [of g s] by auto
  from i have l: "linked s" and p: "placed s" by (simp_all add: board_inv_def)
  from p act have "in_grid s (cell (agents s a))" by (simp add: placed_def)
  from TypeB_move_total [OF l this, of "flips a"]
  obtain s' where m: "TypeB_move (flips a) a s = Inr s'" by blast
  from i act m have "board_inv True s'" by (blast intro: board_inv_TypeB_move)
  moreover have "frame g s'"
    using i frame_TypeB_move [OF m] by (blast intro: frame_trans)
  ultimately show "\<exists>s'. TypeB_move (flips a) a s = Inr s' \<and> frame g s' \<and> board_inv True s'"
    using m by blast
qed

lemma set_playerAs_active: "set (playerAs g) \<subseteq> set (active g)"
  and set_playerBs_active: "set (playerBs g) \<subseteq> set (active g)"
  and set_playerCs_active: "set (playerCs g) \<subseteq> set (active g)"
  by (auto simp: active_def)

lemma board_inv_phaseA:
  assumes "shuffles rnd" "board_inv w g"
  shows "board_inv w (phaseA rnd g)"
proof -
  define g1 where "g1 = g\<lparr>playerAs := shuffleA rnd (playerAs g)\<rparr>"
  define g2 where "g2 = foldl (\<lambda>s a. TypeA_move a s) g1 (playerAs g1)"
  define g3 where "g3 = g2\<lparr>playerBs := shuffleB rnd (playerBs g2)\<rparr>"
  have ph: "phaseA rnd g = clean_up g3"
    by (simp add: phaseA_def Let_def g1_def g2_def g3_def)
  have "board_inv w g1"
    unfolding g1_def using assms by (simp add: board_inv_shuffle)
  then have "board_inv w g2"
    unfolding g2_def by (rule board_inv_foldl_TypeA_move) (rule set_playerAs_active)
  then have "board_inv w g3"
    unfolding g3_def using assms(1) by (simp add: board_inv_shuffle)
  then show ?thesis
    unfolding ph by (rule board_inv_clean_up)
qed

lemma board_inv_phaseB:
  assumes "board_inv w g" "phaseB rnd g = Inr g'"
  shows "board_inv w g'"
proof -
  from assms(2) obtain g1 where g1: "for_each (\<lambda>b. TypeB_move (coins rnd b) b) (playerBs g) g = Inr g1"
    and g': "g' = clean_up g1"
    by (auto simp: phaseB_def split: sum.splits)
  have "board_inv w g1"
    by (rule board_inv_for_each_TypeB_move [OF assms(1) set_playerBs_active g1])
  then show ?thesis
    unfolding g' by (rule board_inv_clean_up)
qed

lemma phaseB_total:
  assumes "board_inv True g"
  shows "\<exists>g'. phaseB rnd g = Inr g'"
  using for_each_TypeB_move_total [OF assms set_playerBs_active, of "coins rnd"]
  by (auto simp: phaseB_def)

lemma board_inv_phaseC:
  assumes "shuffles rnd" "board_inv w g"
  shows "board_inv w (phaseC rnd t n g)"
proof -
  define g1 where "g1 = g\<lparr>playerCs := shuffleC rnd (playerCs g)\<rparr>"
  define g2 where "g2 = foldl (\<lambda>s c. TypeC_act rnd t n c s) g1 (playerCs g1)"
  have ph: "phaseC rnd t n g = clean_up g2"
    by (simp add: phaseC_def Let_def g1_def g2_def)
  have "board_inv w g1"
    unfolding g1_def using assms by (simp add: board_inv_shuffle)
  then have "board_inv w g2"
    unfolding g2_def by (rule board_inv_foldl_TypeC_act) (rule set_playerCs_active)
  then show ?thesis
    unfolding ph by (rule board_inv_clean_up)
qed

lemma board_inv_foldl_reset:
  "board_inv w (foldl (\<lambda>s a. reset a s) g xs) = board_inv w g"
  by (induction xs arbitrary: g) (simp_all add: reset_def)

lemma board_inv_reset_all: "board_inv w (reset_all g) = board_inv w g"
  by (simp add: reset_all_def Let_def board_inv_foldl_reset)

lemma board_inv_play_turn:
  assumes "shuffles rnd" "board_inv w g" "play_turn rnd t n g = Inr g'"
  shows "board_inv w g'"
proof -
  from assms(3) obtain g1 where g1: "phaseB rnd (phaseA rnd g) = Inr g1"
    and g': "g' = reset_all (phaseC rnd t n g1)"
    by (auto simp: play_turn_def split: sum.splits)
  have "board_inv w (phaseA rnd g)" by (rule board_inv_phaseA [OF assms(1,2)])
  then have "board_inv w g1" using g1 by (rule board_inv_phaseB)
  then have "board_inv w (phaseC rnd t n g1)" by (rule board_inv_phaseC [OF assms(1)])
  then show ?thesis by (simp add: g' board_inv_reset_all)
qed

lemma play_turn_total:
  assumes "shuffles rnd" "board_inv True g"
  shows "\<exists>g'. play_turn rnd t n g = Inr g'"
proof -
  have "board_inv True (phaseA rnd g)" by (rule board_inv_phaseA [OF assms])
  from phaseB_total [OF this, of rnd] show ?thesis
    by (auto simp: play_turn_def)
qed

lemma board_inv_play:
  assumes "\<And>i. shuffles (rnds i)" "board_inv w g" "play rnds n k g = Inr g'"
  shows "board_inv w g'"
  using assms(3)
proof (induction k arbitrary: g')
  case 0
  with assms(2) show ?case by simp
next
  case (Suc k)
  from Suc.prems obtain g1 where g1: "play rnds n k g = Inr g1"
    and t: "play_turn (rnds k) (int k) n g1 = Inr g'"
    by (auto split: sum.splits)
  from Suc.IH [OF g1] have "board_inv w g1" .
  with assms(1) [of k] show ?case using t by (rule board_inv_play_turn)
qed

lemma play_total:
  assumes "\<And>i. shuffles (rnds i)" "board_inv True g"
  shows "\<exists>g'. play rnds n k g = Inr g'"
proof (induction k)
  case 0
  show ?case by simp
next
  case (Suc k)
  then obtain g1 where g1: "play rnds n k g = Inr g1" by blast
  have "board_inv True g1" by (rule board_inv_play [OF assms g1])
  from play_turn_total [OF assms(1) this] g1 show ?case by auto
qed

section \<open>Running the scenarios\<close>

lemma rank_choices_one [simp]:
  "rank_choices des [k] = [(k, norm_cells k des)]"
  by (simp add: rank_choices_def norm_cells_def Let_def)

lemma adjacent_2x3:
  "adjacent (initialize (Grid_init 2 3)) (0, 0) = [(0, 0), (1, 0), (0, 1), (1, 1)]"
  "adjacent (initialize (Grid_init 2 3)) (0, 2) = [(0, 1), (1, 1), (0, 2), (1, 2)]"
  by (simp_all add: adjacent_initialize in_grid_def moore9_def)

lemma linked_initialize [simp]: "linked (initialize g)"
  unfolding linked_def by (rule adjacent_initialize_cong [symmetric]) simp_all

lemma linked_new_agent [simp]: "linked (new_agent r k s e g) = linked g"
  by (rule linked_cong) simp_all

lemma active_new_agent:
  "active (new_agent r k s e g) =
     (case k of
        TypeA \<Rightarrow> (playerAs g @ [r]) @ playerBs g @ playerCs g @ playerDs g
      | TypeB \<Rightarrow> playerAs g @ (playerBs g @ [r]) @ playerCs g @ playerDs g
      | TypeC \<Rightarrow> playerAs g @ playerBs g @ (playerCs g @ [r]) @ playerDs g
      | TypeD \<Rightarrow> playerAs g @ playerBs g @ playerCs g @ playerDs g @ [r])"
  by (cases k) (simp_all add: active_def)

lemma shuffles_plain_draws [simp]: "shuffles plain_draws"
  by (simp add: shuffles_def plain_draws_def)

lemma phaseA_plain_draws:
  "phaseA plain_draws g = clean_up (foldl (\<lambda>s a. TypeA_move a s) g (playerAs g))"
  by (simp add: phaseA_def plain_draws_def Let_def)

lemma phaseC_plain_draws:
  "phaseC plain_draws t n g =
     clean_up (foldl (\<lambda>s c. TypeC_act plain_draws t n c s) g (playerCs g))"
  by (simp add: phaseC_def plain_draws_def Let_def)

lemma scan_pool_two_done:
  assumes "d x" "d y" "x \<noteq> y"
  shows "scan_pool d [x, y] = ([y], [x])"
  using assms by (simp add: scan_pool_def clean_loop.simps Let_def)

lemma scan_pool_one_done:
  assumes "d y"
  shows "scan_pool d [y] = ([], [y])"
  using assms by (simp add: scan_pool_def clean_loop.simps Let_def)

lemma scan_pool_one_kept:
  assumes "\<not> d y"
  shows "scan_pool d [y] = ([y], [])"
  using assms by (simp add: scan_pool_def clean_loop.simps Let_def)

text \<open>The scenarios are what \<open>populate\<close> builds from their rows.\<close>

lemma grid_at_make_cells:
  assumes "grid g = make_cells w h" "0 \<le> x" "0 \<le> y"
  shows "grid_at g y x = (if y < h \<and> x < w then Inr (x, y) else Inl IndexError)"
  using assms by (simp add: grid_at_def py_index_make_cells py_index_row)

lemma grid_at_row3 [simp]:
  "grid g = make_cells 3 1 \<Longrightarrow> grid_at g 0 0 = Inr (0, 0)"
  "grid g = make_cells 3 1 \<Longrightarrow> grid_at g 0 1 = Inr (1, 0)"
  "grid g = make_cells 3 1 \<Longrightarrow> grid_at g 0 2 = Inr (2, 0)"
  by (simp_all add: grid_at_make_cells)

lemma mover_state_populate:
  "populate [(''A1'', (''A1'', 1, 0, 2, 0)), (''C1'', (''C1'', 2, 0, 0, 0))]
     (initialize (Grid_init 3 1)) = Inr mover_state"
  by (simp add: populate_row_def mover_state_def)

lemma swap_state_populate:
  "populate [(''A1'', (''A1'', 2, 0, 0, 0)), (''B1'', (''B1'', 1, 0, 2, 0))]
     (initialize (Grid_init 3 1)) = Inr swap_state"
  by (simp add: populate_row_def swap_state_def)

lemma tourist_state_populate:
  "populate [(''B1'', (''B1'', 0, 0, 2, 0)), (''C1'', (''C1'', 1, 0, 0, 0))]
     (initialize (Grid_init 3 1)) = Inr tourist_state"
  by (simp add: populate_row_def tourist_state_def)

lemma two_movers_populate:
  "populate [(''A1'', (''A1'', 0, 0, 1, 0)), (''A2'', (''A2'', 0, 2, 1, 2))]
     (initialize (Grid_init 2 3)) = Inr two_movers"
  by (simp add: populate_row_def two_movers_def grid_at_make_cells)

lemma blocked_tourists_populate:
  "populate [(''C1'', (''C1'', 0, 0, 1, 0)), (''D1'', (''D'', 1, 0, 1, 0)),
             (''C2'', (''C2'', 2, 0, 1, 0))]
     (initialize (Grid_init 3 1)) = Inr blocked_tourists"
  by (simp add: populate_row_def blocked_tourists_def)

lemma obstacle_state_populate:
  "populate [(''B1'', (''B1'', 0, 0, 2, 0)), (''D1'', (''D'', 1, 0, 1, 0))]
     (initialize (Grid_init 3 1)) = Inr obstacle_state"
  by (simp add: populate_row_def obstacle_state_def)

lemma swapped_tourist_populate:
  "populate [(''B1'', (''B1'', 0, 0, 1, 0)), (''C1'', (''C1'', 1, 0, 2, 0))]
     (initialize (Grid_init 3 1)) = Inr swapped_tourist"
  by (simp add: populate_row_def swapped_tourist_def)

lemma two_followers_populate:
  "populate [(''B1'', (''B1'', 0, 0, 0, 0)), (''B2'', (''B2'', 2, 0, 2, 0))]
     (initialize (Grid_init 3 1)) = Inr two_followers"
  by (simp add: populate_row_def two_followers_def)

section \<open>The claims about single methods\<close>

text \<open>
  C3. The claim: a Mover that acts moves to the nearest free neighbour if some free
  neighbour is strictly closer to its destination than its own cell, and otherwise its
  cell is unchanged. The module's documentation of Type A says the same ("if there is no
  move that will bring them closer to their destination, they will stay put").
  \<open>TypeA.move\<close> never compares with the distance of the agent's own cell. In
  \<open>mover_state\<close> the Mover \<open>A1\<close> stands on \<open>(1, 0)\<close> next to its destination \<open>(2, 0)\<close>, which a
  Tourist occupies; its only free neighbour \<open>(0, 0)\<close> is farther from the destination than
  its own cell, and \<open>move\<close> takes it there.
\<close>

theorem TypeA_move_moves_away:
  "\<not> moved (agents mover_state ''A1'') \<and>
   cell (agents mover_state ''A1'') = (1, 0) \<and>
   end_cell (agents mover_state ''A1'') = (2, 0) \<and>
   filter (\<lambda>j. occupant mover_state j = None \<and> j \<noteq> (1, 0)) (adjacent mover_state (1, 0))
     = [(0, 0)] \<and>
   norm_cells (1, 0) (2, 0) < norm_cells (0, 0) (2, 0) \<and>
   cell (agents (TypeA_move ''A1'' mover_state) ''A1'') = (0, 0)"
  by (simp add: TypeA_move_def mover_state_def adjacent_row3 Cell_symbol_def Let_def
        norm_cells_def)

text \<open>
  C2. The claim: a second \<open>clean_up\<close> right after the first removes nobody, since the
  first has removed every agent that stands on its destination (the docstring of
  \<open>clean_up\<close>: it "goes through all the agents and removes any from the board that have
  reached their destination"). The loops remove from the list they iterate over, so the
  agent after a removed one is skipped. In \<open>two_movers\<close> both Movers reach their
  destinations in the Mover phase of the first turn; the cleanup that ends the phase
  removes \<open>A1\<close> and leaves \<open>A2\<close> active on its destination, and a second cleanup removes
  \<open>A2\<close>.
\<close>

lemma two_movers_after_moves:
  "foldl (\<lambda>s a. TypeA_move a s) two_movers [''A1'', ''A2''] = g \<Longrightarrow>
   playerAs g = [''A1'', ''A2''] \<and> finishedAs g = [] \<and>
   cell (agents g ''A1'') = (1, 0) \<and> end_cell (agents g ''A1'') = (1, 0) \<and>
   cell (agents g ''A2'') = (1, 2) \<and> end_cell (agents g ''A2'') = (1, 2)"
  by (auto simp add: TypeA_move_def two_movers_def adjacent_2x3 Cell_symbol_def Let_def
        rank_choices_def)

theorem clean_up_skips_second_arrival:
  "playerAs (phaseA plain_draws two_movers) = [''A2''] \<and>
   finishedAs (phaseA plain_draws two_movers) = [''A1''] \<and>
   cell (agents (phaseA plain_draws two_movers) ''A2'') =
     end_cell (agents (phaseA plain_draws two_movers) ''A2'') \<and>
   playerAs (clean_up (phaseA plain_draws two_movers)) = [] \<and>
   finishedAs (clean_up (phaseA plain_draws two_movers)) = [''A1'', ''A2'']"
proof -
  define g where "g = foldl (\<lambda>s a. TypeA_move a s) two_movers [''A1'', ''A2'']"
  have g: "playerAs g = [''A1'', ''A2'']" "finishedAs g = []"
    "cell (agents g ''A1'') = (1, 0)" "end_cell (agents g ''A1'') = (1, 0)"
    "cell (agents g ''A2'') = (1, 2)" "end_cell (agents g ''A2'') = (1, 2)"
    using two_movers_after_moves [OF g_def [symmetric]] by simp_all
  have "playerAs two_movers = [''A1'', ''A2'']"
    by (simp add: two_movers_def)
  then have ph: "phaseA plain_draws two_movers = clean_up g"
    by (simp add: phaseA_plain_draws g_def)
  have s1: "scan_pool (arrived g) [''A1'', ''A2''] = ([''A2''], [''A1''])"
    by (rule scan_pool_two_done) (simp_all add: arrived_def g)
  have one: "playerAs (clean_up g) = [''A2'']" "finishedAs (clean_up g) = [''A1'']"
    by (simp_all add: clean_up_pools g s1)
  have s2: "scan_pool (arrived (clean_up g)) [''A2''] = ([], [''A2''])"
    by (rule scan_pool_one_done) (simp add: arrived_def g)
  have two: "playerAs (clean_up (clean_up g)) = []"
    "finishedAs (clean_up (clean_up g)) = [''A1'', ''A2'']"
    unfolding clean_up_pools [of "clean_up g"] one s2 by simp_all
  show ?thesis
    unfolding ph using one two by (simp add: g)
qed

section \<open>A run with two blocked Tourists\<close>

text \<open>
  The three modes for a run of 100 turns: Greedy up to turn 33, Idle up to turn 66, then
  RandomWalk.
\<close>

lemma TypeC_act_100:
  "TypeC_act rnd t 100 c g =
     (if t \<le> 33 then TypeC_move2 c g
      else if t \<le> 66 then TypeC_move3 c g
      else if t \<le> 100 then TypeC_move1 (picks rnd c) c g
      else g)"
proof -
  have a: "real_of_int t \<le> 100 / 3 \<longleftrightarrow> t \<le> 33"
  proof -
    have "real_of_int t \<le> 100 / 3 \<longleftrightarrow> real_of_int (3 * t) \<le> real_of_int 100" by (simp add: mult.commute)
    also have "\<dots> \<longleftrightarrow> 3 * t \<le> 100" by (simp only: of_int_le_iff)
    also have "\<dots> \<longleftrightarrow> t \<le> 33" by presburger
    finally show ?thesis .
  qed
  have b: "real_of_int t \<le> 200 / 3 \<longleftrightarrow> t \<le> 66"
  proof -
    have "real_of_int t \<le> 200 / 3 \<longleftrightarrow> real_of_int (3 * t) \<le> real_of_int 200" by (simp add: mult.commute)
    also have "\<dots> \<longleftrightarrow> 3 * t \<le> 200" by (simp only: of_int_le_iff)
    also have "\<dots> \<longleftrightarrow> t \<le> 66" by presburger
    finally show ?thesis .
  qed
  show ?thesis
    by (simp add: TypeC_act_def a b not_le [symmetric])
qed

lemma scan_pool_two_kept:
  assumes "\<not> d x" "\<not> d y"
  shows "scan_pool d [x, y] = ([x, y], [])"
  using assms by (simp add: scan_pool_def clean_loop.simps Let_def)

lemma blocked_clean_up:
  assumes "blocked n s" "n \<le> 40"
  shows "blocked n (clean_up s)"
proof -
  from assms have e: "\<not> expired s ''C1''" "\<not> expired s ''C2''"
    by (simp_all add: blocked_def expired_def arrived_def MAX_C_MOVES_def)
  have sc: "scan_pool (expired s) [''C1'', ''C2''] = ([''C1'', ''C2''], [])"
    by (rule scan_pool_two_kept) (rule e)+
  from assms have r: "removed s = []"
    by (simp add: removed_def blocked_def sc)
  from assms show ?thesis
    by (simp add: blocked_def clean_up_pools clean_up_occupant r sc)
qed

lemma blocked_acts:
  assumes "blocked n s" "0 \<le> t" "t \<le> 100"
    and g: "g = foldl (\<lambda>s c. TypeC_act plain_draws t 100 c s) s [''C1'', ''C2'']"
  shows "playerAs g = []" "playerBs g = []" "playerCs g = [''C1'', ''C2'']"
    "finishedCs g = []"
    "adjacent g (0, 0) = [(0, 0), (1, 0)]" "adjacent g (2, 0) = [(1, 0), (2, 0)]"
    "occupant g (0, 0) = Some ''C1''" "occupant g (1, 0) = Some ''D1''"
    "occupant g (2, 0) = Some ''C2''"
    "cell (agents g ''C1'') = (0, 0)" "end_cell (agents g ''C1'') = (1, 0)"
    "cell (agents g ''C2'') = (2, 0)" "end_cell (agents g ''C2'') = (1, 0)"
    "move_count (agents g ''C1'') = n + (if t \<le> 33 then 0 else 1)"
    "move_count (agents g ''C2'') = n + (if t \<le> 33 then 0 else 1)"
  using assms(1,3) unfolding g blocked_def
  by (simp_all add: TypeC_act_100 TypeC_move1_def TypeC_move2_def TypeC_move3_def Let_def)


lemma phaseB_no_followers:
  "playerBs g = [] \<Longrightarrow> phaseB rnd g = Inr (clean_up g)"
  by (simp add: phaseB_def)

lemma reset_all_tourists:
  assumes "playerAs g = []" "playerBs g = []" "playerCs g = cs"
  shows "reset_all g = (foldl (\<lambda>s c. reset c s) g cs)\<lparr>turn := turn g + 1\<rparr>"
proof -
  have "turn (foldl (\<lambda>s c. reset c s) g xs) = turn g" for xs
    by (induction xs arbitrary: g) (simp_all add: reset_def)
  with assms show ?thesis
    by (simp add: reset_all_def Let_def)
qed

lemma blocked_to_phaseC:
  assumes "blocked n s" "n \<le> 40"
  shows "\<exists>s2. blocked n s2 \<and>
     play_turn plain_draws t 100 s =
       Inr (reset_all (clean_up (foldl (\<lambda>s c. TypeC_act plain_draws t 100 c s) s2
              [''C1'', ''C2''])))"
proof -
  let ?s1 = "clean_up s"
  let ?s2 = "clean_up ?s1"
  have b1: "blocked n ?s1" by (rule blocked_clean_up [OF assms])
  have b2: "blocked n ?s2" by (rule blocked_clean_up [OF b1 assms(2)])
  have a: "phaseA plain_draws s = ?s1"
    using assms(1) by (simp add: phaseA_plain_draws blocked_def)
  have b: "phaseB plain_draws ?s1 = Inr ?s2"
    using b1 by (simp add: phaseB_no_followers blocked_def)
  have c: "phaseC plain_draws t 100 ?s2 =
      clean_up (foldl (\<lambda>s c. TypeC_act plain_draws t 100 c s) ?s2 [''C1'', ''C2''])"
    using b2 by (simp add: phaseC_plain_draws blocked_def)
  have "play_turn plain_draws t 100 s =
      Inr (reset_all (clean_up (foldl (\<lambda>s c. TypeC_act plain_draws t 100 c s) ?s2
             [''C1'', ''C2''])))"
    by (simp add: play_turn_def a b c)
  with b2 show ?thesis by blast
qed

lemma blocked_turn:
  assumes "blocked n s" "0 \<le> t" "t \<le> 100" "n + (if t \<le> 33 then 0 else 1) \<le> 40" "0 \<le> n"
  shows "\<exists>s'. play_turn plain_draws t 100 s = Inr s' \<and>
               blocked (n + (if t \<le> 33 then 0 else 1)) s'"
proof -
  let ?n = "n + (if t \<le> 33 then 0 else 1)"
  from assms have n: "n \<le> 40" by (simp split: if_splits)
  obtain s2 where b2: "blocked n s2"
    and pt: "play_turn plain_draws t 100 s =
       Inr (reset_all (clean_up (foldl (\<lambda>s c. TypeC_act plain_draws t 100 c s) s2
              [''C1'', ''C2''])))"
    using blocked_to_phaseC [OF assms(1) n] by blast
  define g where "g = foldl (\<lambda>s c. TypeC_act plain_draws t 100 c s) s2 [''C1'', ''C2'']"
  note g = blocked_acts [OF b2 assms(2,3) g_def]
  have e: "\<not> expired g ''C1''" "\<not> expired g ''C2''"
    using assms(4) by (simp_all add: expired_def arrived_def MAX_C_MOVES_def g)
  have sc: "scan_pool (expired g) [''C1'', ''C2''] = ([''C1'', ''C2''], [])"
    by (rule scan_pool_two_kept) (rule e)+
  have r: "removed g = []"
    by (simp add: removed_def g sc)
  define h where "h = clean_up g"
  have h: "playerAs h = []" "playerBs h = []" "playerCs h = [''C1'', ''C2'']"
    "finishedCs h = []" "adjacent h = adjacent g" "occupant h = occupant g"
    "agents h = agents g"
    by (simp_all add: h_def clean_up_pools clean_up_occupant r g sc)
  have "blocked ?n (reset_all h)"
    unfolding reset_all_tourists [OF h(1,2,3)]
    by (simp add: blocked_def h g reset_def)
  then show ?thesis
    unfolding pt g_def [symmetric] h_def [symmetric] by simp
qed

lemma blocked_last_turn:
  assumes "blocked 40 s" "33 < t" "t \<le> 100"
  shows "\<exists>s'. play_turn plain_draws t 100 s = Inr s' \<and>
               playerCs s' = [''C2''] \<and> finishedCs s' = [''C1''] \<and>
               move_count (agents s' ''C2'') = 41 \<and>
               cell (agents s' ''C2'') = (2, 0) \<and> end_cell (agents s' ''C2'') = (1, 0)"
proof -
  obtain s2 where b2: "blocked 40 s2"
    and pt: "play_turn plain_draws t 100 s =
       Inr (reset_all (clean_up (foldl (\<lambda>s c. TypeC_act plain_draws t 100 c s) s2
              [''C1'', ''C2''])))"
    using blocked_to_phaseC [OF assms(1)] by force
  define g where "g = foldl (\<lambda>s c. TypeC_act plain_draws t 100 c s) s2 [''C1'', ''C2'']"
  from assms have t: "0 \<le> t" by simp
  note g = blocked_acts [OF b2 t assms(3) g_def]
  have e: "expired g ''C1''" "expired g ''C2''"
    using assms(2) by (simp_all add: expired_def MAX_C_MOVES_def g)
  have sc: "scan_pool (expired g) [''C1'', ''C2''] = ([''C2''], [''C1''])"
    by (rule scan_pool_two_done) (use e in simp_all)
  define h where "h = clean_up g"
  have h: "playerAs h = []" "playerBs h = []" "playerCs h = [''C2'']"
    "finishedCs h = [''C1'']" "agents h = agents g"
    by (simp_all add: h_def clean_up_pools g sc)
  have "playerCs (reset_all h) = [''C2''] \<and> finishedCs (reset_all h) = [''C1''] \<and>
        move_count (agents (reset_all h) ''C2'') = 41 \<and>
        cell (agents (reset_all h) ''C2'') = (2, 0) \<and>
        end_cell (agents (reset_all h) ''C2'') = (1, 0)"
    unfolding reset_all_tourists [OF h(1,2,3)]
    using assms(2) by (simp add: h g reset_def)
  then show ?thesis
    unfolding pt g_def [symmetric] h_def [symmetric] by simp
qed

lemma blocked_blocked_tourists: "blocked 0 blocked_tourists"
  by (simp add: blocked_def blocked_tourists_def adjacent_row3)

lemma blocked_run:
  "k \<le> 74 \<Longrightarrow>
   \<exists>s. play (\<lambda>i. plain_draws) 100 k blocked_tourists = Inr s \<and>
       blocked (if k \<le> 34 then 0 else int k - 34) s"
proof (induction k)
  case 0
  show ?case by (simp add: blocked_blocked_tourists)
next
  case (Suc k)
  then obtain s where s: "play (\<lambda>i. plain_draws) 100 k blocked_tourists = Inr s"
    and b: "blocked (if k \<le> 34 then 0 else int k - 34) s"
    by auto
  let ?n = "if k \<le> 34 then 0 else int k - 34"
  have "\<exists>s'. play_turn plain_draws (int k) 100 s = Inr s' \<and>
              blocked (?n + (if int k \<le> 33 then 0 else 1)) s'"
    by (rule blocked_turn [OF b]) (use Suc.prems in auto)
  moreover have "?n + (if int k \<le> 33 then 0 else 1) = (if Suc k \<le> 34 then 0 else int (Suc k) - 34)"
    by auto
  ultimately show ?case
    by (simp add: s)
qed

text \<open>
  C8. The claim: a Tourist whose move counter has passed 40 is in the finished pool after
  the first cleanup that follows (and Greedy mode never counts). The element that the loops
  of \<open>clean_up\<close> skip (see C2) breaks the first half. Take the run of 100 turns from
  \<open>blocked_tourists\<close>: neither Tourist can ever move, Greedy turns 0 to 33 leave the counters
  at 0, every later turn adds 1, and in turn 74 both counters reach 41. The cleanup that
  ends the Tourists' phase of turn 74 removes \<open>C1\<close> and steps over \<open>C2\<close>, which ends the turn
  in the active pool, off its destination and with counter 41.
\<close>

theorem clean_up_skips_second_tourist:
  "\<exists>s. play (\<lambda>i. plain_draws) 100 75 blocked_tourists = Inr s \<and>
       playerCs s = [''C2''] \<and> finishedCs s = [''C1''] \<and>
       MAX_C_MOVES < move_count (agents s ''C2'') \<and>
       cell (agents s ''C2'') \<noteq> end_cell (agents s ''C2'')"
proof -
  obtain s where s: "play (\<lambda>i. plain_draws) 100 74 blocked_tourists = Inr s"
    and b: "blocked 40 s"
    using blocked_run [of 74] by auto
  have "play (\<lambda>i. plain_draws) 100 (Suc 74) blocked_tourists =
      play_turn plain_draws (int 74) 100 s"
    unfolding play.simps s by simp
  moreover have "Suc 74 = 75" "int 74 = 74" by simp_all
  ultimately have "play (\<lambda>i. plain_draws) 100 75 blocked_tourists =
      play_turn plain_draws 74 100 s"
    by (simp only:)
  moreover have "\<exists>s'. play_turn plain_draws 74 100 s = Inr s' \<and>
               playerCs s' = [''C2''] \<and> finishedCs s' = [''C1''] \<and>
               move_count (agents s' ''C2'') = 41 \<and>
               cell (agents s' ''C2'') = (2, 0) \<and> end_cell (agents s' ''C2'') = (1, 0)"
    by (rule blocked_last_turn [OF b]) simp_all
  ultimately show ?thesis
    by (auto simp: MAX_C_MOVES_def)
qed

section \<open>A Tourist that accepts a swap\<close>

text \<open>
  \<open>check_swap\<close> of \<open>TypeA\<close>, \<open>TypeB\<close> and \<open>TypeD\<close> assigns \<open>self.moved = True\<close> before it returns
  \<open>True\<close>.
\<close>

lemma swap_marks_acted_unless_tourist:
  assumes "check_swap flip a c g = (True, g')" "klass (agents g a) \<noteq> TypeC"
  shows "moved (agents g' a)"
  using assms
  by (cases "klass (agents g a)")
     (auto simp: check_swap_def TypeA_check_swap_def TypeB_check_swap_def
        TypeD_check_swap_def Let_def split: if_splits)

text \<open>The first turn of \<open>swapped_tourist\<close>, phase by phase.\<close>

lemma swapped_tourist_request:
  assumes s1: "s1 = phaseA plain_draws swapped_tourist"
  shows "playerAs s1 = []" "playerBs s1 = [''B1'']" "playerCs s1 = [''C1'']"
    "finishedAs s1 = []" "finishedBs s1 = []" "finishedCs s1 = []"
    "adjacent s1 = adjacent swapped_tourist" "occupant s1 = occupant swapped_tourist"
    "agents s1 = agents swapped_tourist"
proof -
  have p: "playerAs swapped_tourist = []" "playerBs swapped_tourist = [''B1'']"
    "playerCs swapped_tourist = [''C1'']"
    by (simp_all add: swapped_tourist_def)
  have ph: "s1 = clean_up swapped_tourist"
    unfolding s1 by (simp add: phaseA_plain_draws p)
  have b: "scan_pool (arrived swapped_tourist) [''B1''] = ([''B1''], [])"
    by (rule scan_pool_one_kept) (simp add: arrived_def swapped_tourist_def)
  have c: "scan_pool (expired swapped_tourist) [''C1''] = ([''C1''], [])"
    by (rule scan_pool_one_kept)
      (simp add: expired_def arrived_def swapped_tourist_def MAX_C_MOVES_def)
  have r: "removed swapped_tourist = []"
    by (simp add: removed_def p b c)
  show "playerAs s1 = []" "playerBs s1 = [''B1'']" "playerCs s1 = [''C1'']"
    "finishedAs s1 = []" "finishedBs s1 = []" "finishedCs s1 = []"
    "adjacent s1 = adjacent swapped_tourist" "occupant s1 = occupant swapped_tourist"
    "agents s1 = agents swapped_tourist"
    unfolding ph
    by (simp_all add: clean_up_pools clean_up_occupant r p b c)
      (simp_all add: swapped_tourist_def)
qed

lemma swapped_tourist_swap:
  assumes s1: "s1 = phaseA plain_draws swapped_tourist"
  shows "\<exists>s2. for_each (\<lambda>b. TypeB_move (coins plain_draws b) b) (playerBs s1) s1 = Inr s2 \<and>
    playerAs s2 = [] \<and> playerBs s2 = [''B1''] \<and> playerCs s2 = [''C1''] \<and>
    finishedAs s2 = [] \<and> finishedBs s2 = [] \<and> finishedCs s2 = [] \<and>
    adjacent s2 = adjacent swapped_tourist \<and>
    occupant s2 (0, 0) = Some ''C1'' \<and> occupant s2 (1, 0) = Some ''B1'' \<and>
    cell (agents s2 ''B1'') = (1, 0) \<and> end_cell (agents s2 ''B1'') = (1, 0) \<and>
    cell (agents s2 ''C1'') = (0, 0) \<and> end_cell (agents s2 ''C1'') = (2, 0) \<and>
    \<not> moved (agents s2 ''C1'') \<and> move_count (agents s2 ''C1'') = 0 \<and>
    moves (agents s2 ''C1'') = []"
proof -
  note f = swapped_tourist_request [OF s1]
  show ?thesis
    by (simp add: f TypeB_move_def TypeB_shortest_path_between_def find_best_choice_def
        check_swap_def TypeC_check_swap_def plain_draws_def Cell_symbol_def Let_def
        swapped_tourist_def adjacent_row3 swap_cells_def)
qed


lemma reset_all_fields:
  "playerAs (reset_all g) = playerAs g" "playerBs (reset_all g) = playerBs g"
  "playerCs (reset_all g) = playerCs g" "finishedAs (reset_all g) = finishedAs g"
  "finishedBs (reset_all g) = finishedBs g" "finishedCs (reset_all g) = finishedCs g"
  "cell (agents (reset_all g) a) = cell (agents g a)"
  "end_cell (agents (reset_all g) a) = end_cell (agents g a)"
  "moves (agents (reset_all g) a) = moves (agents g a)"
  "move_count (agents (reset_all g) a) = move_count (agents g a)"
proof -
  have r: "playerAs (foldl (\<lambda>s a. reset a s) h xs) = playerAs h \<and>
           playerBs (foldl (\<lambda>s a. reset a s) h xs) = playerBs h \<and>
           playerCs (foldl (\<lambda>s a. reset a s) h xs) = playerCs h \<and>
           finishedAs (foldl (\<lambda>s a. reset a s) h xs) = finishedAs h \<and>
           finishedBs (foldl (\<lambda>s a. reset a s) h xs) = finishedBs h \<and>
           finishedCs (foldl (\<lambda>s a. reset a s) h xs) = finishedCs h \<and>
           cell (agents (foldl (\<lambda>s a. reset a s) h xs) a) = cell (agents h a) \<and>
           end_cell (agents (foldl (\<lambda>s a. reset a s) h xs) a) = end_cell (agents h a) \<and>
           moves (agents (foldl (\<lambda>s a. reset a s) h xs) a) = moves (agents h a) \<and>
           move_count (agents (foldl (\<lambda>s a. reset a s) h xs) a) = move_count (agents h a)"
    for h xs
    by (induction xs arbitrary: h) (simp_all add: reset_def)
  show "playerAs (reset_all g) = playerAs g" "playerBs (reset_all g) = playerBs g"
    "playerCs (reset_all g) = playerCs g" "finishedAs (reset_all g) = finishedAs g"
    "finishedBs (reset_all g) = finishedBs g" "finishedCs (reset_all g) = finishedCs g"
    "cell (agents (reset_all g) a) = cell (agents g a)"
    "end_cell (agents (reset_all g) a) = end_cell (agents g a)"
    "moves (agents (reset_all g) a) = moves (agents g a)"
    "move_count (agents (reset_all g) a) = move_count (agents g a)"
    by (simp_all add: reset_all_def Let_def r)
qed

lemma swapped_tourist_greedy:
  assumes s2: "playerAs s2 = []" "playerBs s2 = [''B1'']" "playerCs s2 = [''C1'']"
    "finishedAs s2 = []" "finishedBs s2 = []" "finishedCs s2 = []"
    "adjacent s2 = adjacent swapped_tourist"
    "occupant s2 (0, 0) = Some ''C1''" "occupant s2 (1, 0) = Some ''B1''"
    "cell (agents s2 ''B1'') = (1, 0)" "end_cell (agents s2 ''B1'') = (1, 0)"
    "cell (agents s2 ''C1'') = (0, 0)" "end_cell (agents s2 ''C1'') = (2, 0)"
    "\<not> moved (agents s2 ''C1'')" "move_count (agents s2 ''C1'') = 0"
    "moves (agents s2 ''C1'') = []"
  shows "cell (agents (phaseC plain_draws 0 100 (clean_up s2)) ''C1'') = (1, 0)"
    "moves (agents (phaseC plain_draws 0 100 (clean_up s2)) ''C1'') = [((0, 0), (1, 0))]"
    "playerCs (phaseC plain_draws 0 100 (clean_up s2)) = [''C1'']"
proof -
  define s3 where "s3 = clean_up s2"
  have b: "scan_pool (arrived s2) [''B1''] = ([], [''B1''])"
    by (rule scan_pool_one_done) (simp add: arrived_def s2)
  have c: "scan_pool (expired s2) [''C1''] = ([''C1''], [])"
    by (rule scan_pool_one_kept) (simp add: expired_def arrived_def s2 MAX_C_MOVES_def)
  have r: "removed s2 = [''B1'']"
    by (simp add: removed_def s2 b c)
  have s3: "playerCs s3 = [''C1'']" "finishedCs s3 = []"
    "adjacent s3 (0, 0) = [(0, 0), (1, 0)]"
    "occupant s3 (0, 0) = Some ''C1''" "occupant s3 (1, 0) = None"
    "cell (agents s3 ''C1'') = (0, 0)" "end_cell (agents s3 ''C1'') = (2, 0)"
    "\<not> moved (agents s3 ''C1'')" "move_count (agents s3 ''C1'') = 0"
    "moves (agents s3 ''C1'') = []"
    unfolding s3_def
    by (simp_all add: clean_up_pools clean_up_occupant r s2 c)
      (simp_all add: swapped_tourist_def adjacent_row3)
  define s4 where "s4 = TypeC_move2 ''C1'' s3"
  have s4: "playerCs s4 = [''C1'']" "finishedCs s4 = []"
    "cell (agents s4 ''C1'') = (1, 0)" "end_cell (agents s4 ''C1'') = (2, 0)"
    "move_count (agents s4 ''C1'') = 0" "moves (agents s4 ''C1'') = [((0, 0), (1, 0))]"
    unfolding s4_def by (simp_all add: TypeC_move2_def s3 Let_def)
  have ph: "phaseC plain_draws 0 100 s3 = clean_up s4"
    by (simp add: phaseC_plain_draws s3 TypeC_act_100 s4_def)
  have c4: "scan_pool (expired s4) [''C1''] = ([''C1''], [])"
    by (rule scan_pool_one_kept) (simp add: expired_def arrived_def s4 MAX_C_MOVES_def)
  show "cell (agents (phaseC plain_draws 0 100 (clean_up s2)) ''C1'') = (1, 0)"
    "moves (agents (phaseC plain_draws 0 100 (clean_up s2)) ''C1'') = [((0, 0), (1, 0))]"
    "playerCs (phaseC plain_draws 0 100 (clean_up s2)) = [''C1'']"
    unfolding s3_def [symmetric] ph by (simp_all add: s4 clean_up_pools c4)
qed

text \<open>
  C4. The claim: an agent of any class that accepts a swap request is thereby marked as
  having acted for the rest of the turn, the Tourist with its coin flip included.
  \<open>TypeA.check_swap\<close>, \<open>TypeB.check_swap\<close> and \<open>TypeD.check_swap\<close> set \<open>self.moved\<close> when they
  accept; \<open>TypeC.check_swap\<close> returns the coin and sets nothing, although \<open>TypeC.move2\<close>
  acts only while \<open>self.moved\<close> is unset. In the first turn (a Greedy turn) of
  \<open>swapped_tourist\<close> the PathFollower \<open>B1\<close> asks the Tourist \<open>C1\<close> for its cell and the coin
  shows 1: \<open>C1\<close> accepts and its flag stays unset; the swap puts \<open>C1\<close> on \<open>(0, 0)\<close>, and in
  the Tourists' phase of the same turn \<open>C1\<close> acts again and walks from \<open>(0, 0)\<close> to \<open>(1, 0)\<close>.
\<close>

theorem tourist_acts_after_accepting:
  "fst (check_swap (coins plain_draws ''B1'') ''C1'' (0, 0) (phaseA plain_draws swapped_tourist)) \<and>
   \<not> moved (agents (snd (check_swap (coins plain_draws ''B1'') ''C1'' (0, 0)
                 (phaseA plain_draws swapped_tourist))) ''C1'') \<and>
   (\<exists>s2 s. phaseB plain_draws (phaseA plain_draws swapped_tourist) = Inr s2 \<and>
      cell (agents s2 ''C1'') = (0, 0) \<and>
      play_turn plain_draws 0 100 swapped_tourist = Inr s \<and>
      ''C1'' \<in> set (playerCs s) \<and> cell (agents s ''C1'') = (1, 0) \<and>
      moves (agents s ''C1'') = [((0, 0), (1, 0))])"
proof -
  define s1 where "s1 = phaseA plain_draws swapped_tourist"
  note f = swapped_tourist_request [OF s1_def]
  have a: "fst (check_swap (coins plain_draws ''B1'') ''C1'' (0, 0) s1)"
    "\<not> moved (agents (snd (check_swap (coins plain_draws ''B1'') ''C1'' (0, 0) s1)) ''C1'')"
    by (simp_all add: check_swap_def TypeC_check_swap_def plain_draws_def f swapped_tourist_def)
  obtain s2 where
    fe: "for_each (\<lambda>b. TypeB_move (coins plain_draws b) b) (playerBs s1) s1 = Inr s2"
    and s2: "playerAs s2 = []" "playerBs s2 = [''B1'']" "playerCs s2 = [''C1'']"
    "finishedAs s2 = []" "finishedBs s2 = []" "finishedCs s2 = []"
    "adjacent s2 = adjacent swapped_tourist"
    "occupant s2 (0, 0) = Some ''C1''" "occupant s2 (1, 0) = Some ''B1''"
    "cell (agents s2 ''B1'') = (1, 0)" "end_cell (agents s2 ''B1'') = (1, 0)"
    "cell (agents s2 ''C1'') = (0, 0)" "end_cell (agents s2 ''C1'') = (2, 0)"
    "\<not> moved (agents s2 ''C1'')" "move_count (agents s2 ''C1'') = 0"
    "moves (agents s2 ''C1'') = []"
    using swapped_tourist_swap [OF s1_def] by blast
  have pb: "phaseB plain_draws s1 = Inr (clean_up s2)"
    by (simp add: phaseB_def fe)
  note g = swapped_tourist_greedy [OF s2]
  have pt: "play_turn plain_draws 0 100 swapped_tourist =
      Inr (reset_all (phaseC plain_draws 0 100 (clean_up s2)))"
    by (simp add: play_turn_def s1_def [symmetric] pb)
  have "cell (agents (clean_up s2) ''C1'') = (0, 0)" by (simp add: s2)
  with a pb pt g show ?thesis
    unfolding s1_def [symmetric] by (simp add: reset_all_fields)
qed

section \<open>The occupancy invariant over the turns\<close>

lemma occupancy_inv_one_per_cell:
  assumes "occupancy_inv g"
  shows "inj_on (\<lambda>a. cell (agents g a)) (set (active g))"
proof (rule inj_onI)
  fix a b
  assume "a \<in> set (active g)" "b \<in> set (active g)" "cell (agents g a) = cell (agents g b)"
  with assms have "Some a = Some b"
    by (metis occupancy_inv_def)
  then show "a = b" by simp
qed

text \<open>
  C1. From a state in which every agent of the board (active or obstacle) is in one pool
  once and its cell records it as occupant, every operation of a turn gives such a state
  again: a Mover's \<open>move\<close>, a PathFollower's \<open>move\<close> (direct move, accepted or declined
  swap), a Tourist's \<open>move1\<close>, \<open>move2\<close> and \<open>move3\<close>, \<open>clean_up\<close>, a whole \<open>play_turn\<close> and any
  number of turns; no two agents of the board then share a cell. On a grid built by
  \<open>initialize\<close> with every agent on a cell of the grid the turns do run to their end.
\<close>

theorem occupancy_inv_preserved:
  assumes "occupancy_inv g"
  shows "(\<forall>a\<in>set (playerAs g). occupancy_inv (TypeA_move a g)) \<and>
         (\<forall>b\<in>set (playerBs g). \<forall>flip g'. TypeB_move flip b g = Inr g' \<longrightarrow> occupancy_inv g') \<and>
         (\<forall>c\<in>set (playerCs g). \<forall>p.
              occupancy_inv (TypeC_move1 p c g) \<and> occupancy_inv (TypeC_move2 c g) \<and>
              occupancy_inv (TypeC_move3 c g)) \<and>
         occupancy_inv (clean_up g) \<and>
         (\<forall>rnd t n g'. shuffles rnd \<longrightarrow> play_turn rnd t n g = Inr g' \<longrightarrow> occupancy_inv g') \<and>
         (\<forall>(rnds :: nat \<Rightarrow> Rand) n k g'. (\<forall>i. shuffles (rnds i)) \<longrightarrow> play rnds n k g = Inr g' \<longrightarrow>
              occupancy_inv g' \<and> inj_on (\<lambda>a. cell (agents g' a)) (set (active g'))) \<and>
         (linked g \<and> placed g \<longrightarrow>
            (\<forall>(rnds :: nat \<Rightarrow> Rand) n k. (\<forall>i. shuffles (rnds i)) \<longrightarrow>
               (\<exists>g'. play rnds n k g = Inr g' \<and> occupancy_inv g')))"
proof (intro conjI ballI allI impI)
  have b: "board_inv False g" using assms by (simp add: board_inv_def)
  fix a
  assume "a \<in> set (playerAs g)"
  then have "a \<in> set (active g)" by (simp add: active_def)
  with assms show "occupancy_inv (TypeA_move a g)" by (rule occupancy_inv_TypeA_move)
next
  fix b flip g'
  assume "b \<in> set (playerBs g)" "TypeB_move flip b g = Inr g'"
  moreover from this have "b \<in> set (active g)" by (simp add: active_def)
  ultimately show "occupancy_inv g'" using assms by (blast intro: occupancy_inv_TypeB_move)
next
  fix c p
  assume "c \<in> set (playerCs g)"
  then have c: "c \<in> set (active g)" by (simp add: active_def)
  show "occupancy_inv (TypeC_move1 p c g)" using assms c by (rule occupancy_inv_TypeC_move1)
  show "occupancy_inv (TypeC_move2 c g)" using assms c by (rule occupancy_inv_TypeC_move2)
  show "occupancy_inv (TypeC_move3 c g)" using assms by (rule occupancy_inv_TypeC_move3)
next
  show "occupancy_inv (clean_up g)" using assms by (rule occupancy_inv_clean_up)
next
  fix rnd t n g'
  assume "shuffles rnd" "play_turn rnd t n g = Inr g'"
  moreover have "board_inv False g" using assms by (simp add: board_inv_def)
  ultimately have "board_inv False g'" by (blast intro: board_inv_play_turn)
  then show "occupancy_inv g'" by (simp add: board_inv_def)
next
  fix rnds :: "nat \<Rightarrow> Rand" and n k g'
  assume s: "\<forall>i. shuffles (rnds i)" and p: "play rnds n k g = Inr g'"
  have "board_inv False g" using assms by (simp add: board_inv_def)
  with s p have "board_inv False g'" by (blast intro: board_inv_play)
  then show "occupancy_inv g'" by (simp add: board_inv_def)
  then show "inj_on (\<lambda>a. cell (agents g' a)) (set (active g'))"
    by (rule occupancy_inv_one_per_cell)
next
  fix rnds :: "nat \<Rightarrow> Rand" and n k
  assume lp: "linked g \<and> placed g" and s: "\<forall>i. shuffles (rnds i)"
  with assms have b: "board_inv True g" by (simp add: board_inv_def)
  from s have s': "\<And>i. shuffles (rnds i)" by simp
  from play_total [of rnds, OF s' b] obtain g' where g': "play rnds n k g = Inr g'" by blast
  from board_inv_play [of rnds, OF s' b g'] have "occupancy_inv g'" by (simp add: board_inv_def)
  with g' show "\<exists>g'. play rnds n k g = Inr g' \<and> occupancy_inv g'" by blast
qed

lemma tourist_state_inv:
  "occupancy_inv tourist_state" "linked tourist_state" "placed tourist_state"
  by (simp_all add: occupancy_inv_def placed_def tourist_state_def active_new_agent
        active_def in_grid_def)

theorem occupancy_inv_preserved_witness:
  "occupancy_inv tourist_state \<and>
   occupancy_inv (clean_up tourist_state) \<and>
   occupancy_inv (TypeC_move1 0 ''C1'' tourist_state) \<and>
   (\<exists>g'. TypeB_move 1 ''B1'' tourist_state = Inr g' \<and> occupancy_inv g' \<and>
         cell (agents g' ''B1'') = (1, 0) \<and> cell (agents g' ''C1'') = (0, 0)) \<and>
   (\<exists>g'. play (\<lambda>i. plain_draws) 3 3 tourist_state = Inr g' \<and> occupancy_inv g')"
proof -
  note h = tourist_state_inv
  note t = occupancy_inv_preserved [OF h(1)]
  have pools: "playerBs tourist_state = [''B1'']" "playerCs tourist_state = [''C1'']"
    by (simp_all add: tourist_state_def)
  have m: "\<exists>g'. TypeB_move 1 ''B1'' tourist_state = Inr g' \<and>
         cell (agents g' ''B1'') = (1, 0) \<and> cell (agents g' ''C1'') = (0, 0)"
    by (simp add: TypeB_move_def TypeB_shortest_path_between_def find_best_choice_def
          check_swap_def TypeC_check_swap_def tourist_state_def adjacent_row3 Cell_symbol_def
          Let_def)
  then obtain g' where g': "TypeB_move 1 ''B1'' tourist_state = Inr g'"
    "cell (agents g' ''B1'') = (1, 0)" "cell (agents g' ''C1'') = (0, 0)" by blast
  from t g'(1) pools have "occupancy_inv g'" by simp
  with g' have 1: "\<exists>g'. TypeB_move 1 ''B1'' tourist_state = Inr g' \<and> occupancy_inv g' \<and>
         cell (agents g' ''B1'') = (1, 0) \<and> cell (agents g' ''C1'') = (0, 0)" by blast
  from t pools have 2: "occupancy_inv (TypeC_move1 0 ''C1'' tourist_state)" by simp
  from t have 3: "occupancy_inv (clean_up tourist_state)" by simp
  from t h(2,3) have 4: "\<exists>g'. play (\<lambda>i. plain_draws) 3 3 tourist_state = Inr g' \<and> occupancy_inv g'"
    by simp
  from h(1) 1 2 3 4 show ?thesis by blast
qed

section \<open>The PathFollower's move is total\<close>

lemma TypeB_shortest_path_between_moved:
  "moved (agents g b) \<Longrightarrow> TypeB_shortest_path_between b g = Inl UnboundLocalError"
  by (simp add: TypeB_shortest_path_between_def)

text \<open>
  C10. On a grid built by \<open>initialize\<close>, for a PathFollower that stands on a cell of the
  grid: the cell is in its own adjacency list; if the agent has not moved,
  \<open>shortest_path_between\<close> returns coordinates that the lookup loop of \<open>move\<close> finds in the
  adjacency list, so \<open>best_choice\<close> is never \<open>None\<close> and \<open>move\<close> returns normally; if the
  agent has moved, \<open>shortest_path_between\<close> would raise (its result variable is unbound)
  but \<open>move\<close> does not call it and returns with the state unchanged. With the whole board
  on the grid, a turn never raises either.
\<close>

theorem TypeB_move_never_raises:
  assumes "linked g" "in_grid g (cell (agents g b))"
  shows "cell (agents g b) \<in> set (adjacent g (cell (agents g b))) \<and>
         (\<not> moved (agents g b) \<longrightarrow>
            (\<exists>coords. TypeB_shortest_path_between b g = Inr coords \<and>
               coords \<in> set (adjacent g (cell (agents g b))) \<and>
               find_best_choice coords (adjacent g (cell (agents g b))) = Some coords)) \<and>
         (moved (agents g b) \<longrightarrow>
            TypeB_shortest_path_between b g = Inl UnboundLocalError \<and>
            TypeB_move flip b g = Inr g) \<and>
         (\<exists>g'. TypeB_move flip b g = Inr g') \<and>
         (occupancy_inv g \<and> placed g \<longrightarrow>
            (\<forall>rnd t n. shuffles rnd \<longrightarrow> (\<exists>g'. play_turn rnd t n g = Inr g')))"
proof (intro conjI impI allI)
  show self: "cell (agents g b) \<in> set (adjacent g (cell (agents g b)))"
    by (rule linked_adjacent_self [OF assms])
  show "\<exists>coords. TypeB_shortest_path_between b g = Inr coords \<and>
          coords \<in> set (adjacent g (cell (agents g b))) \<and>
          find_best_choice coords (adjacent g (cell (agents g b))) = Some coords"
    if "\<not> moved (agents g b)"
  proof -
    from TypeB_shortest_path_between_in [OF that]
    obtain coords where c: "TypeB_shortest_path_between b g = Inr coords"
      "coords \<in> set (adjacent g (cell (agents g b))) \<or> coords = cell (agents g b)"
      by blast
    with self have "coords \<in> set (adjacent g (cell (agents g b)))" by auto
    with c(1) show ?thesis by (simp add: find_best_choice_eq)
  qed
  show "TypeB_shortest_path_between b g = Inl UnboundLocalError" if "moved (agents g b)"
    using that by (rule TypeB_shortest_path_between_moved)
  show "TypeB_move flip b g = Inr g" if "moved (agents g b)"
    using that by (simp add: TypeB_move_def)
  show "\<exists>g'. TypeB_move flip b g = Inr g'"
    by (rule TypeB_move_total [OF assms])
  show "\<exists>g'. play_turn rnd t n g = Inr g'" if "occupancy_inv g \<and> placed g" "shuffles rnd"
    for rnd t n
  proof -
    from that(1) assms(1) have "board_inv True g" by (simp add: board_inv_def)
    with that(2) show ?thesis by (rule play_turn_total)
  qed
qed

theorem TypeB_move_never_raises_witness:
  "linked tourist_state \<and> in_grid tourist_state (cell (agents tourist_state ''B1'')) \<and>
   \<not> moved (agents tourist_state ''B1'') \<and>
   (\<exists>coords. TypeB_shortest_path_between ''B1'' tourist_state = Inr coords \<and>
      find_best_choice coords (adjacent tourist_state (cell (agents tourist_state ''B1'')))
        = Some coords) \<and>
   (\<exists>g'. TypeB_move 1 ''B1'' tourist_state = Inr g') \<and>
   (\<exists>g'. play_turn plain_draws 0 3 tourist_state = Inr g')"
proof -
  have h: "linked tourist_state" "in_grid tourist_state (cell (agents tourist_state ''B1''))"
    and m: "\<not> moved (agents tourist_state ''B1'')"
    by (simp_all add: tourist_state_def in_grid_def)
  from TypeB_move_never_raises [OF h, of 1] m h tourist_state_inv shuffles_plain_draws
  show ?thesis by blast
qed

section \<open>Movers after their phase\<close>

lemma moved_foldl_TypeA_move:
  "a \<in> set xs \<Longrightarrow> moved (agents (foldl (\<lambda>s a. TypeA_move a s) g xs) a)"
proof (induction xs arbitrary: g)
  case Nil
  then show ?case by simp
next
  case (Cons x xs)
  show ?case
  proof (cases "a = x")
    case True
    have "moved (agents (TypeA_move x g) x)" by (rule moved_after_TypeA_move)
    moreover have "frame (TypeA_move x g) (foldl (\<lambda>s a. TypeA_move a s) (TypeA_move x g) xs)"
      by (rule frame_foldl_TypeA_move)
    ultimately show ?thesis using True by (simp add: frame_def)
  next
    case False
    with Cons show ?thesis by simp
  qed
qed

lemma phaseA_movers:
  assumes "shuffles rnd"
  shows "set (playerAs (phaseA rnd g)) \<subseteq> set (playerAs g)"
    and "a \<in> set (playerAs (phaseA rnd g)) \<Longrightarrow> moved (agents (phaseA rnd g) a)"
    and "klass (agents (phaseA rnd g) x) = klass (agents g x)"
proof -
  define g1 where "g1 = g\<lparr>playerAs := shuffleA rnd (playerAs g)\<rparr>"
  define g2 where "g2 = foldl (\<lambda>s a. TypeA_move a s) g1 (playerAs g1)"
  define g3 where "g3 = g2\<lparr>playerBs := shuffleB rnd (playerBs g2)\<rparr>"
  have ph: "phaseA rnd g = clean_up g3"
    by (simp add: phaseA_def Let_def g1_def g2_def g3_def)
  have f: "frame g1 g2" unfolding g2_def by (rule frame_foldl_TypeA_move)
  from assms have "mset (shuffleA rnd (playerAs g)) = mset (playerAs g)"
    by (simp add: shuffles_def)
  from mset_eq_setD [OF this] have s1: "set (playerAs g1) = set (playerAs g)"
    by (simp add: g1_def)
  have p3: "playerAs g3 = playerAs g1" using f by (simp add: g3_def frame_def)
  have sub: "set (playerAs (clean_up g3)) \<subseteq> set (playerAs g1)"
    using set_pools_clean_up(1) [of g3] by (simp add: p3)
  show "set (playerAs (phaseA rnd g)) \<subseteq> set (playerAs g)"
    unfolding ph using sub s1 by simp
  show "moved (agents (phaseA rnd g) a)" if "a \<in> set (playerAs (phaseA rnd g))"
  proof -
    from that sub have "a \<in> set (playerAs g1)" unfolding ph by auto
    then have "moved (agents g2 a)" unfolding g2_def by (rule moved_foldl_TypeA_move)
    then show ?thesis unfolding ph by (simp add: g3_def)
  qed
  show "klass (agents (phaseA rnd g) x) = klass (agents g x)"
    unfolding ph using f by (simp add: g3_def g1_def frame_def)
qed

lemma moved_Mover_declines:
  assumes "klass (agents g a) = TypeA" "moved (agents g a)"
  shows "check_swap flip a c g = (False, g)"
  using assms by (simp add: check_swap_def TypeA_check_swap_def)

text \<open>
  C6. In a turn, after the Mover phase (the Movers' moves and the cleanup that follows)
  and after any sequence of PathFollower moves, every Mover of the active pool has its
  \<open>moved\<close> flag set, and a swap request to it, from any cell and whatever the coin, is
  declined and changes nothing.
\<close>

theorem movers_decline_after_their_phase:
  assumes "shuffles rnd"
    and "\<forall>a\<in>set (playerAs g). klass (agents g a) = TypeA"
    and "for_each (\<lambda>b. TypeB_move (flips b) b) bs (phaseA rnd g) = Inr s"
    and "a \<in> set (playerAs s)"
  shows "moved (agents s a) \<and> check_swap flip a c s = (False, s)"
proof -
  note f = frame_for_each_TypeB_move [OF assms(3)]
  from f assms(4) have a: "a \<in> set (playerAs (phaseA rnd g))" by (simp add: frame_def)
  note p = phaseA_movers [OF assms(1), where g = g]
  from p(2) [OF a] f have m: "moved (agents s a)" by (simp add: frame_def)
  from a p(1) assms(2) have "klass (agents g a) = TypeA" by auto
  with p(3) [where x = a] f have "klass (agents s a) = TypeA" by (simp add: frame_def)
  from moved_Mover_declines [OF this m] m show ?thesis by simp
qed

lemma swap_state_inv:
  "occupancy_inv swap_state" "linked swap_state" "placed swap_state"
  by (simp_all add: occupancy_inv_def placed_def swap_state_def active_new_agent
        active_def in_grid_def)

lemma swap_state_phaseA:
  "playerAs (phaseA plain_draws swap_state) = [''A1'']"
  "playerBs (phaseA plain_draws swap_state) = [''B1'']"
proof -
  define g where "g = foldl (\<lambda>s a. TypeA_move a s) swap_state [''A1'']"
  have g: "playerAs g = [''A1'']" "playerBs g = [''B1'']"
    "cell (agents g ''A1'') = (2, 0)" "end_cell (agents g ''A1'') = (0, 0)"
    "cell (agents g ''B1'') = (1, 0)" "end_cell (agents g ''B1'') = (2, 0)"
    by (simp_all add: g_def TypeA_move_def swap_state_def adjacent_row3 Cell_symbol_def Let_def)
  have "playerAs swap_state = [''A1'']" by (simp add: swap_state_def)
  then have ph: "phaseA plain_draws swap_state = clean_up g"
    by (simp add: phaseA_plain_draws g_def)
  show "playerAs (phaseA plain_draws swap_state) = [''A1'']"
    unfolding ph by (simp add: clean_up_pools g scan_pool_one_kept arrived_def)
  show "playerBs (phaseA plain_draws swap_state) = [''B1'']"
    unfolding ph by (simp add: clean_up_pools g scan_pool_one_kept arrived_def)
qed

theorem movers_decline_after_their_phase_witness:
  "\<exists>s. for_each (\<lambda>b. TypeB_move 1 b) [''B1''] (phaseA plain_draws swap_state) = Inr s \<and>
       ''A1'' \<in> set (playerAs s) \<and> klass (agents swap_state ''A1'') = TypeA \<and>
       moved (agents s ''A1'') \<and> check_swap 1 ''A1'' (1, 0) s = (False, s)"
proof -
  have b: "board_inv True (phaseA plain_draws swap_state)"
    by (rule board_inv_phaseA) (simp_all add: board_inv_def swap_state_inv)
  have "set [''B1''] \<subseteq> set (active (phaseA plain_draws swap_state))"
    by (simp add: active_def swap_state_phaseA)
  from for_each_TypeB_move_total [OF b this, of "\<lambda>b. 1"]
  obtain s where s: "for_each (\<lambda>b. TypeB_move 1 b) [''B1''] (phaseA plain_draws swap_state) = Inr s"
    by blast
  have k: "\<forall>a\<in>set (playerAs swap_state). klass (agents swap_state a) = TypeA"
    by (simp add: swap_state_def)
  have a: "''A1'' \<in> set (playerAs s)"
    using frame_for_each_TypeB_move [OF s] by (simp add: frame_def swap_state_phaseA)
  have k1: "klass (agents swap_state ''A1'') = TypeA"
    by (simp add: swap_state_def)
  have "moved (agents s ''A1'') \<and> check_swap 1 ''A1'' (1, 0) s = (False, s)"
    by (rule movers_decline_after_their_phase [OF shuffles_plain_draws k s a])
  with s a k1 show ?thesis by blast
qed

section \<open>Obstacles\<close>

lemma obstacle_at_frame:
  assumes "obstacle_at g d c" "frame g g'" "cell (agents g' d) = cell (agents g d)"
  shows "obstacle_at g' d c"
  using assms by (simp add: obstacle_at_def is_obstacle_def frame_def)

lemma obstacle_not_pooled:
  assumes "obstacle_at g d c"
  shows "d \<notin> set (playerAs g)" "d \<notin> set (playerBs g)" "d \<notin> set (playerCs g)"
  using assms by (simp_all add: obstacle_at_def is_obstacle_def)

lemma obstacle_at_TypeA_move:
  assumes "obstacle_at g d c" "self \<in> set (playerAs g)"
  shows "obstacle_at (TypeA_move self g) d c"
proof (rule obstacle_at_frame [OF assms(1) frame_TypeA_move])
  from assms obstacle_not_pooled(1) [OF assms(1)] have "d \<noteq> self" by auto
  then show "cell (agents (TypeA_move self g) d) = cell (agents g d)"
    by (rule cell_other_TypeA_move)
qed

lemma cell_other_TypeC_act:
  "x \<noteq> self \<Longrightarrow> cell (agents (TypeC_act rnd t n self g) x) = cell (agents g x)"
  by (simp add: TypeC_act_def cell_other_TypeC_move1 cell_other_TypeC_move2 cell_TypeC_move3)

lemma obstacle_at_TypeC_act:
  assumes "obstacle_at g d c" "self \<in> set (playerCs g)"
  shows "obstacle_at (TypeC_act rnd t n self g) d c"
proof (rule obstacle_at_frame [OF assms(1) frame_TypeC_act])
  from assms obstacle_not_pooled(3) [OF assms(1)] have "d \<noteq> self" by auto
  then show "cell (agents (TypeC_act rnd t n self g) d) = cell (agents g d)"
    by (rule cell_other_TypeC_act)
qed

lemma obstacle_at_TypeB_move:
  assumes "obstacle_at g d c" "self \<in> set (playerBs g)" "TypeB_move flip self g = Inr g'"
  shows "obstacle_at g' d c"
proof (rule obstacle_at_frame [OF assms(1) frame_TypeB_move [OF assms(3)]])
  from assms obstacle_not_pooled(2) [OF assms(1)] have "d \<noteq> self" by auto
  moreover from assms(1) have "klass (agents g d) = TypeD"
    by (simp add: obstacle_at_def is_obstacle_def)
  ultimately show "cell (agents g' d) = cell (agents g d)"
    by (rule cell_other_TypeB_move [OF assms(3)])
qed

lemma obstacle_at_clean_up:
  assumes "obstacle_at g d c"
  shows "obstacle_at (clean_up g) d c"
  using assms set_pools_clean_up [of g]
  by (auto simp: obstacle_at_def is_obstacle_def)

lemma obstacle_at_reorder:
  assumes "set (playerAs g') = set (playerAs g)" "set (playerBs g') = set (playerBs g)"
    and "set (playerCs g') = set (playerCs g)" "playerDs g' = playerDs g"
    and "agents g' = agents g"
  shows "obstacle_at g' d c = obstacle_at g d c"
  by (simp add: obstacle_at_def is_obstacle_def assms)

lemma obstacle_at_shuffle:
  assumes "shuffles rnd"
  shows "obstacle_at (g\<lparr>playerAs := shuffleA rnd (playerAs g)\<rparr>) d c = obstacle_at g d c"
    "obstacle_at (g\<lparr>playerBs := shuffleB rnd (playerBs g)\<rparr>) d c = obstacle_at g d c"
    "obstacle_at (g\<lparr>playerCs := shuffleC rnd (playerCs g)\<rparr>) d c = obstacle_at g d c"
proof -
  from assms have a: "mset (shuffleA rnd (playerAs g)) = mset (playerAs g)"
    and b: "mset (shuffleB rnd (playerBs g)) = mset (playerBs g)"
    and c: "mset (shuffleC rnd (playerCs g)) = mset (playerCs g)"
    by (simp_all add: shuffles_def)
  show "obstacle_at (g\<lparr>playerAs := shuffleA rnd (playerAs g)\<rparr>) d c = obstacle_at g d c"
    by (rule obstacle_at_reorder) (simp_all add: mset_eq_setD [OF a])
  show "obstacle_at (g\<lparr>playerBs := shuffleB rnd (playerBs g)\<rparr>) d c = obstacle_at g d c"
    by (rule obstacle_at_reorder) (simp_all add: mset_eq_setD [OF b])
  show "obstacle_at (g\<lparr>playerCs := shuffleC rnd (playerCs g)\<rparr>) d c = obstacle_at g d c"
    by (rule obstacle_at_reorder) (simp_all add: mset_eq_setD [OF c])
qed

lemma obstacle_at_set_moved [simp]: "obstacle_at (set_moved a b g) d c = obstacle_at g d c"
  by (simp add: obstacle_at_def is_obstacle_def)

lemma obstacle_at_foldl_reset:
  "obstacle_at (foldl (\<lambda>s a. reset a s) g xs) d c = obstacle_at g d c"
  by (induction xs arbitrary: g) (simp_all add: reset_def)

lemma obstacle_at_turn [simp]: "obstacle_at (g\<lparr>turn := n\<rparr>) d c = obstacle_at g d c"
  by (simp add: obstacle_at_def is_obstacle_def)

lemma obstacle_at_reset_all: "obstacle_at (reset_all g) d c = obstacle_at g d c"
  by (simp add: reset_all_def Let_def obstacle_at_foldl_reset)

lemma obstacle_at_foldl_TypeA_move:
  assumes "obstacle_at g d c" "set xs \<subseteq> set (playerAs g)"
  shows "obstacle_at (foldl (\<lambda>s a. TypeA_move a s) g xs) d c"
proof -
  have "frame g (foldl (\<lambda>s a. TypeA_move a s) g xs) \<and>
        obstacle_at (foldl (\<lambda>s a. TypeA_move a s) g xs) d c"
  proof (rule foldl_invariant [where I = "\<lambda>s. frame g s \<and> obstacle_at s d c"])
    show "frame g g \<and> obstacle_at g d c" using assms(1) by simp
    fix s a
    assume a: "a \<in> set xs" and i: "frame g s \<and> obstacle_at s d c"
    then have "a \<in> set (playerAs s)" using assms(2) by (auto simp: frame_def)
    with i have "obstacle_at (TypeA_move a s) d c" by (simp add: obstacle_at_TypeA_move)
    moreover have "frame g (TypeA_move a s)"
      using i frame_TypeA_move [of s a] by (blast intro: frame_trans)
    ultimately show "frame g (TypeA_move a s) \<and> obstacle_at (TypeA_move a s) d c" by simp
  qed
  then show ?thesis by simp
qed

lemma obstacle_at_foldl_TypeC_act:
  assumes "obstacle_at g d c" "set xs \<subseteq> set (playerCs g)"
  shows "obstacle_at (foldl (\<lambda>s x. TypeC_act rnd t n x s) g xs) d c"
proof -
  have "frame g (foldl (\<lambda>s x. TypeC_act rnd t n x s) g xs) \<and>
        obstacle_at (foldl (\<lambda>s x. TypeC_act rnd t n x s) g xs) d c"
  proof (rule foldl_invariant [where I = "\<lambda>s. frame g s \<and> obstacle_at s d c"])
    show "frame g g \<and> obstacle_at g d c" using assms(1) by simp
    fix s a
    assume a: "a \<in> set xs" and i: "frame g s \<and> obstacle_at s d c"
    then have "a \<in> set (playerCs s)" using assms(2) by (auto simp: frame_def)
    with i have "obstacle_at (TypeC_act rnd t n a s) d c" by (simp add: obstacle_at_TypeC_act)
    moreover have "frame g (TypeC_act rnd t n a s)"
      using i frame_TypeC_act [of s rnd t n a] by (blast intro: frame_trans)
    ultimately show "frame g (TypeC_act rnd t n a s) \<and> obstacle_at (TypeC_act rnd t n a s) d c"
      by simp
  qed
  then show ?thesis by simp
qed

lemma obstacle_at_for_each_TypeB_move:
  assumes "obstacle_at g d c" "set xs \<subseteq> set (playerBs g)"
    and "for_each (\<lambda>b. TypeB_move (flips b) b) xs g = Inr g'"
  shows "obstacle_at g' d c"
proof -
  have "frame g g' \<and> obstacle_at g' d c"
  proof (rule for_each_invariant [OF assms(3), where I = "\<lambda>s. frame g s \<and> obstacle_at s d c"])
    show "frame g g \<and> obstacle_at g d c" using assms(1) by simp
    fix s a s'
    assume a: "a \<in> set xs" and i: "frame g s \<and> obstacle_at s d c"
      and m: "TypeB_move (flips a) a s = Inr s'"
    then have "a \<in> set (playerBs s)" using assms(2) by (auto simp: frame_def)
    with i m have "obstacle_at s' d c" by (blast intro: obstacle_at_TypeB_move)
    moreover have "frame g s'"
      using i frame_TypeB_move [OF m] by (blast intro: frame_trans)
    ultimately show "frame g s' \<and> obstacle_at s' d c" by simp
  qed
  then show ?thesis by simp
qed

lemma obstacle_at_phaseA:
  assumes "shuffles rnd" "obstacle_at g d c"
  shows "obstacle_at (phaseA rnd g) d c"
proof -
  define g1 where "g1 = g\<lparr>playerAs := shuffleA rnd (playerAs g)\<rparr>"
  define g2 where "g2 = foldl (\<lambda>s a. TypeA_move a s) g1 (playerAs g1)"
  define g3 where "g3 = g2\<lparr>playerBs := shuffleB rnd (playerBs g2)\<rparr>"
  have ph: "phaseA rnd g = clean_up g3"
    by (simp add: phaseA_def Let_def g1_def g2_def g3_def)
  have "obstacle_at g1 d c"
    unfolding g1_def using assms by (simp add: obstacle_at_shuffle)
  then have "obstacle_at g2 d c"
    unfolding g2_def by (rule obstacle_at_foldl_TypeA_move) simp
  then have "obstacle_at g3 d c"
    unfolding g3_def using assms(1) by (simp add: obstacle_at_shuffle)
  then show ?thesis
    unfolding ph by (rule obstacle_at_clean_up)
qed

lemma obstacle_at_phaseB:
  assumes "obstacle_at g d c" "phaseB rnd g = Inr g'"
  shows "obstacle_at g' d c"
proof -
  from assms(2) obtain g1 where g1: "for_each (\<lambda>b. TypeB_move (coins rnd b) b) (playerBs g) g = Inr g1"
    and g': "g' = clean_up g1"
    by (auto simp: phaseB_def split: sum.splits)
  have "obstacle_at g1 d c"
    by (rule obstacle_at_for_each_TypeB_move [OF assms(1) _ g1]) simp
  then show ?thesis
    unfolding g' by (rule obstacle_at_clean_up)
qed

lemma obstacle_at_phaseC:
  assumes "shuffles rnd" "obstacle_at g d c"
  shows "obstacle_at (phaseC rnd t n g) d c"
proof -
  define g1 where "g1 = g\<lparr>playerCs := shuffleC rnd (playerCs g)\<rparr>"
  define g2 where "g2 = foldl (\<lambda>s x. TypeC_act rnd t n x s) g1 (playerCs g1)"
  have ph: "phaseC rnd t n g = clean_up g2"
    by (simp add: phaseC_def Let_def g1_def g2_def)
  have "obstacle_at g1 d c"
    unfolding g1_def using assms by (simp add: obstacle_at_shuffle)
  then have "obstacle_at g2 d c"
    unfolding g2_def by (rule obstacle_at_foldl_TypeC_act) simp
  then show ?thesis
    unfolding ph by (rule obstacle_at_clean_up)
qed

lemma obstacle_at_play_turn:
  assumes "shuffles rnd" "obstacle_at g d c" "play_turn rnd t n g = Inr g'"
  shows "obstacle_at g' d c"
proof -
  from assms(3) obtain g1 where g1: "phaseB rnd (phaseA rnd g) = Inr g1"
    and g': "g' = reset_all (phaseC rnd t n g1)"
    by (auto simp: play_turn_def split: sum.splits)
  have "obstacle_at (phaseA rnd g) d c" by (rule obstacle_at_phaseA [OF assms(1,2)])
  then have "obstacle_at g1 d c" using g1 by (rule obstacle_at_phaseB)
  then have "obstacle_at (phaseC rnd t n g1) d c" by (rule obstacle_at_phaseC [OF assms(1)])
  then show ?thesis by (simp add: g' obstacle_at_reset_all)
qed

lemma obstacle_at_play:
  assumes "\<And>i. shuffles (rnds i)" "obstacle_at g d c" "play rnds n k g = Inr g'"
  shows "obstacle_at g' d c"
  using assms(3)
proof (induction k arbitrary: g')
  case 0
  with assms(2) show ?case by simp
next
  case (Suc k)
  from Suc.prems obtain g1 where g1: "play rnds n k g = Inr g1"
    and t: "play_turn (rnds k) (int k) n g1 = Inr g'"
    by (auto split: sum.splits)
  from Suc.IH [OF g1] have "obstacle_at g1 d c" .
  with assms(1) [of k] show ?case using t by (rule obstacle_at_play_turn)
qed

lemma shortest_path_same [simp]: "shortest_path a a = a"
  by (simp add: shortest_path_def)

lemma obstacle_declines:
  assumes "is_obstacle g d" "c \<noteq> cell (agents g d)"
  shows "check_swap flip d c g = (False, g)"
  using assms by (auto simp: is_obstacle_def check_swap_def TypeD_check_swap_def)

lemma obstacle_declines_active:
  assumes "is_obstacle g d" "occupancy_inv g" "b \<in> set (active g)" "b \<noteq> d"
  shows "check_swap flip d (cell (agents g b)) g = (False, g)"
proof (rule obstacle_declines [OF assms(1)])
  from assms(1) have "d \<in> set (active g)" by (simp add: is_obstacle_def active_def)
  with assms(2-4) occupancy_inv_one_per_cell [OF assms(2)]
  show "cell (agents g b) \<noteq> cell (agents g d)"
    by (auto dest: inj_onD)
qed

text \<open>
  C9. Let \<open>d\<close> be an obstacle of a board on which the occupancy invariant holds. After
  any number of turns \<open>d\<close> is still an obstacle on the cell it started on, and it declines
  the swap request of every other agent of the board. The same holds at every moment at
  which a request can be made, that is, in the state reached in the next turn after the
  Mover phase and any number of PathFollower moves.
\<close>

theorem obstacle_never_moves_nor_swaps:
  assumes "\<forall>i. shuffles (rnds i)" "occupancy_inv g" "is_obstacle g d"
    and "play rnds n k g = Inr g'"
  shows "cell (agents g' d) = cell (agents g d) \<and> is_obstacle g' d \<and>
         (\<forall>b\<in>set (active g'). b \<noteq> d \<longrightarrow>
            (\<forall>flip. check_swap flip d (cell (agents g' b)) g' = (False, g'))) \<and>
         (\<forall>rnd flips bs s. shuffles rnd \<longrightarrow> set bs \<subseteq> set (playerBs (phaseA rnd g')) \<longrightarrow>
            for_each (\<lambda>b. TypeB_move (flips b) b) bs (phaseA rnd g') = Inr s \<longrightarrow>
              cell (agents s d) = cell (agents g d) \<and>
              (\<forall>b\<in>set (active s). b \<noteq> d \<longrightarrow>
                 (\<forall>flip. check_swap flip d (cell (agents s b)) s = (False, s))))"
proof -
  from assms(1) have sh: "\<And>i. shuffles (rnds i)" by simp
  from assms(3) have o: "obstacle_at g d (cell (agents g d))" by (simp add: obstacle_at_def)
  from obstacle_at_play [of rnds, OF sh o assms(4)]
  have o': "obstacle_at g' d (cell (agents g d))" .
  from assms(2) have "board_inv False g" by (simp add: board_inv_def)
  from board_inv_play [of rnds, OF sh this assms(4)]
  have b': "board_inv False g'" .
  then have i': "occupancy_inv g'" by (simp add: board_inv_def)
  from o' have 1: "cell (agents g' d) = cell (agents g d)" "is_obstacle g' d"
    by (simp_all add: obstacle_at_def)
  have 2: "\<forall>b\<in>set (active g'). b \<noteq> d \<longrightarrow>
            (\<forall>flip. check_swap flip d (cell (agents g' b)) g' = (False, g'))"
    using obstacle_declines_active [OF 1(2) i'] by blast
  have 3: "cell (agents s d) = cell (agents g d) \<and>
           (\<forall>b\<in>set (active s). b \<noteq> d \<longrightarrow>
              (\<forall>flip. check_swap flip d (cell (agents s b)) s = (False, s)))"
    if r: "shuffles rnd" and bs: "set bs \<subseteq> set (playerBs (phaseA rnd g'))"
      and s: "for_each (\<lambda>b. TypeB_move (flips b) b) bs (phaseA rnd g') = Inr s"
    for rnd flips bs s
  proof -
    have oa: "obstacle_at (phaseA rnd g') d (cell (agents g d))"
      by (rule obstacle_at_phaseA [OF r o'])
    have os: "obstacle_at s d (cell (agents g d))"
      by (rule obstacle_at_for_each_TypeB_move [OF oa bs s])
    have ba: "board_inv False (phaseA rnd g')"
      by (rule board_inv_phaseA [OF r b'])
    from bs have "set bs \<subseteq> set (active (phaseA rnd g'))" by (auto simp: active_def)
    from board_inv_for_each_TypeB_move [OF ba this s] have "occupancy_inv s"
      by (simp add: board_inv_def)
    with os obstacle_declines_active [of s d] show ?thesis
      by (auto simp: obstacle_at_def)
  qed
  from 1 2 3 show ?thesis by blast
qed

lemma obstacle_state_inv:
  "occupancy_inv obstacle_state" "linked obstacle_state" "placed obstacle_state"
  "is_obstacle obstacle_state ''D1''"
  by (simp_all add: occupancy_inv_def placed_def obstacle_state_def active_new_agent
        active_def in_grid_def is_obstacle_def)

theorem obstacle_never_moves_nor_swaps_witness:
  "occupancy_inv obstacle_state \<and> is_obstacle obstacle_state ''D1'' \<and>
   (\<exists>g'. play (\<lambda>i. plain_draws) 3 2 obstacle_state = Inr g' \<and>
         cell (agents g' ''D1'') = (1, 0) \<and> is_obstacle g' ''D1'') \<and>
   check_swap 1 ''D1'' (cell (agents obstacle_state ''B1'')) obstacle_state
     = (False, obstacle_state)"
proof -
  note h = obstacle_state_inv
  have sh: "\<forall>i. shuffles ((\<lambda>i. plain_draws) i)" by simp
  have "board_inv True obstacle_state" by (simp add: board_inv_def h)
  from play_total [of "\<lambda>i. plain_draws", OF _ this]
  obtain g' where g': "play (\<lambda>i. plain_draws) 3 2 obstacle_state = Inr g'"
    using shuffles_plain_draws by blast
  have c: "cell (agents obstacle_state ''D1'') = (1, 0)"
    by (simp add: obstacle_state_def)
  from obstacle_never_moves_nor_swaps [OF sh h(1) h(4) g'] c
  have 1: "cell (agents g' ''D1'') = (1, 0) \<and> is_obstacle g' ''D1''" by simp
  have z: "play (\<lambda>i. plain_draws) 3 0 obstacle_state = Inr obstacle_state" by simp
  have b: "''B1'' \<in> set (active obstacle_state)"
    by (simp add: obstacle_state_def active_new_agent active_def)
  from obstacle_never_moves_nor_swaps [OF sh h(1) h(4) z] b
  have 2: "check_swap 1 ''D1'' (cell (agents obstacle_state ''B1'')) obstacle_state
             = (False, obstacle_state)"
    by auto
  from h(1) h(4) g' 1 2 show ?thesis by blast
qed

section \<open>The PathFollower's preferred cell\<close>

lemma snap_div:
  assumes "0 < s"
  shows "snap (real_of_int d / s) = sgn d"
  using assms by (simp add: snap_def zero_less_divide_iff divide_less_0_iff sgn_if)

lemma sum_squares_pos:
  assumes "(dx, dy) \<noteq> (0, 0::int)"
  shows "0 < dx * dx + dy * dy"
proof -
  have "0 \<le> dx * dx" "0 \<le> dy * dy" by simp_all
  moreover from assms have "0 < dx * dx \<or> 0 < dy * dy"
    by (auto simp: zero_less_mult_iff) 
  ultimately show ?thesis by linarith
qed

lemma shortest_path_sgn:
  assumes "a \<noteq> b"
  shows "shortest_path a b = (fst a + sgn (fst b - fst a), snd a + sgn (snd b - snd a))"
proof -
  let ?dx = "fst b - fst a" and ?dy = "snd b - snd a"
  let ?n = "sqrt (real_of_int (?dx * ?dx + ?dy * ?dy))"
  from assms have "(?dx, ?dy) \<noteq> (0, 0)" by (auto simp: prod_eq_iff)
  then have "0 < ?dx * ?dx + ?dy * ?dy" by (rule sum_squares_pos)
  then have "0 < real_of_int (?dx * ?dx + ?dy * ?dy)" by (simp only: of_int_0_less_iff)
  then have pos: "0 < ?n" by (simp only: real_sqrt_gt_0_iff)
  have "shortest_path a b =
          (fst a + snap (real_of_int ?dx / ?n), snd a + snap (real_of_int ?dy / ?n))"
    using assms by (simp only: shortest_path_def Let_def if_False)
  then show ?thesis
    by (simp only: snap_div [OF pos])
qed

lemma axis_le:
  assumes "\<bar>i\<bar> \<le> 1"
  shows "(d - sgn d) * (d - sgn d) \<le> (d - i) * (d - (i::int))"
proof -
  from assms have "i = - 1 \<or> i = 0 \<or> i = 1" by arith
  then show ?thesis
    by (cases "d < 0"; cases "d = 0"; auto simp: sgn_if algebra_simps)
qed

lemma axis_less:
  assumes "\<bar>i\<bar> \<le> 1" "i \<noteq> sgn d"
  shows "(d - sgn d) * (d - sgn d) < (d - i) * (d - (i::int))"
proof -
  from assms have "i = - 1 \<or> i = 0 \<or> i = 1" by arith
  with assms(2) show ?thesis
    by (cases "d < 0"; cases "d = 0"; auto simp: sgn_if algebra_simps)
qed

lemma rank_choices_norm:
  "rank_choices des cs = sort_key snd (map (\<lambda>k. (k, norm_cells k des)) cs)"
  by (simp add: rank_choices_def norm_cells_def Let_def)

lemma rank_choices_unique_min:
  assumes "s \<in> set cs"
    and "\<And>j. j \<in> set cs \<Longrightarrow> j \<noteq> s \<Longrightarrow> norm_cells s des < norm_cells j des"
  shows "fst (rank_choices des cs ! 0) = s"
proof -
  let ?r = "rank_choices des cs"
  from assms(1) have ne: "?r \<noteq> []" by auto
  then obtain x xs where r: "?r = x # xs" by (cases ?r) auto
  have "sorted (map snd ?r)" by (simp add: rank_choices_norm)
  with r have le: "\<And>p. p \<in> set xs \<Longrightarrow> snd x \<le> snd p" by simp
  have set: "set ?r = (\<lambda>k. (k, norm_cells k des)) ` set cs"
    by (simp add: rank_choices_norm)
  from r have "x \<in> set ?r" by simp
  with set obtain j where j: "j \<in> set cs" "x = (j, norm_cells j des)" by auto
  from assms(1) set have "(s, norm_cells s des) \<in> set ?r" by auto
  with r have "(s, norm_cells s des) = x \<or> (s, norm_cells s des) \<in> set xs" by auto
  then have "norm_cells j des \<le> norm_cells s des"
    using le [of "(s, norm_cells s des)"] j(2) by auto
  with assms(2) [OF j(1)] have "j = s" by fastforce
  with r j(2) show ?thesis by simp
qed

lemma norm_cells_less_iff:
  "norm_cells a e < norm_cells b e \<longleftrightarrow>
     (fst e - fst a) * (fst e - fst a) + (snd e - snd a) * (snd e - snd a)
       < (fst e - fst b) * (fst e - fst b) + (snd e - snd b) * (snd e - snd b)"
  by (simp add: norm_cells_def Let_def del: of_int_add of_int_mult)

lemma snapped_is_nearest:
  assumes "chebyshev c j \<le> 1" "c \<noteq> e"
    and "j \<noteq> (fst c + sgn (fst e - fst c), snd c + sgn (snd e - snd c))"
  shows "norm_cells (fst c + sgn (fst e - fst c), snd c + sgn (snd e - snd c)) e < norm_cells j e"
proof -
  let ?dx = "fst e - fst c" and ?dy = "snd e - snd c"
  let ?i = "fst j - fst c" and ?k = "snd j - snd c"
  from assms(1) have b: "\<bar>?i\<bar> \<le> 1" "\<bar>?k\<bar> \<le> 1" by (simp_all add: chebyshev_def)
  from assms(3) have "?i \<noteq> sgn ?dx \<or> ?k \<noteq> sgn ?dy" by (auto simp: prod_eq_iff)
  then have "(?dx - sgn ?dx) * (?dx - sgn ?dx) + (?dy - sgn ?dy) * (?dy - sgn ?dy)
             < (?dx - ?i) * (?dx - ?i) + (?dy - ?k) * (?dy - ?k)"
    using axis_le [OF b(1), of ?dx] axis_le [OF b(2), of ?dy]
      axis_less [OF b(1), of ?dx] axis_less [OF b(2), of ?dy]
    by fastforce
  moreover have "fst e - (fst c + sgn ?dx) = ?dx - sgn ?dx" "snd e - (snd c + sgn ?dy) = ?dy - sgn ?dy"
    "fst e - fst j = ?dx - ?i" "snd e - snd j = ?dy - ?k"
    by simp_all
  ultimately show ?thesis
    by (simp only: norm_cells_less_iff fst_conv snd_conv)
qed

lemma snapped_in_grid:
  assumes "in_grid g c" "in_grid g e"
  shows "in_grid g (fst c + sgn (fst e - fst c), snd c + sgn (snd e - snd c))"
  using assms by (auto simp: in_grid_def sgn_if)

lemma snapped_near:
  "chebyshev c (fst c + sgn (fst e - fst c), snd c + sgn (snd e - snd c)) \<le> 1"
  by (simp add: chebyshev_def sgn_if)

lemma snapped_moves:
  assumes "(c :: loc) \<noteq> e"
  shows "(fst c + sgn (fst e - fst c), snd c + sgn (snd e - snd c)) \<noteq> c"
proof
  assume "(fst c + sgn (fst e - fst c), snd c + sgn (snd e - snd c)) = c"
  then have "fst c + sgn (fst e - fst c) = fst c" "snd c + sgn (snd e - snd c) = snd c"
    by (simp_all add: prod_eq_iff)
  then have "sgn (fst e - fst c) = 0" "sgn (snd e - snd c) = 0" by simp_all
  then have "fst e - fst c = 0" "snd e - snd c = 0" by (simp_all only: sgn_eq_0_iff)
  then have "c = e" by (simp add: prod_eq_iff)
  with assms show False by simp
qed

lemma TypeB_choices:
  "filter (\<lambda>j. j \<noteq> c \<and> Cell_symbol j \<noteq> ''D'') adj = filter (\<lambda>j. j \<noteq> c) adj"
  by (simp add: Cell_symbol_def)

text \<open>
  Off its destination a PathFollower that has not moved gets from \<open>shortest_path_between\<close>
  the cell of \<open>shortest_path\<close>, and the lookup of \<open>move\<close> finds it. The roots are real
  numbers here; the bound on the grid keeps every sum of squares below \<open>2 ^ 52\<close>, the range in
  which \<open>math.sqrt\<close> gives different integers different doubles, in their order.
\<close>

lemma shortest_path_between_snaps:
  assumes "linked g" "in_grid g (cell (agents g b))" "in_grid g (end_cell (agents g b))"
    and "\<not> moved (agents g b)" "cell (agents g b) \<noteq> end_cell (agents g b)"
    and "width g \<le> 2 ^ 25" "height g \<le> 2 ^ 25"
  shows "TypeB_shortest_path_between b g
           = Inr (shortest_path (cell (agents g b)) (end_cell (agents g b))) \<and>
         find_best_choice (shortest_path (cell (agents g b)) (end_cell (agents g b)))
           (adjacent g (cell (agents g b)))
           = Some (shortest_path (cell (agents g b)) (end_cell (agents g b)))"
proof -
  let ?c = "cell (agents g b)" and ?e = "end_cell (agents g b)"
  let ?s = "(fst ?c + sgn (fst ?e - fst ?c), snd ?c + sgn (snd ?e - snd ?c))"
  let ?cs = "filter (\<lambda>j. j \<noteq> ?c) (adjacent g ?c)"
  note adj = linked_adjacent [OF assms(1,2)]
  note ne = assms(5)
  have sp: "TypeB_shortest_path_between b g =
              Inr (if ?cs \<noteq> [] then fst (rank_choices ?e ?cs ! 0) else ?c)"
    using assms(4) by (simp add: TypeB_shortest_path_between_def Let_def TypeB_choices)
  have s: "shortest_path ?c ?e = ?s" by (rule shortest_path_sgn [OF ne])
  have "?s \<in> set (adjacent g ?c)"
    using snapped_in_grid [OF assms(2,3)] snapped_near [of ?c ?e]
    by (simp add: adj set_moore9)
  then have in_adj: "shortest_path ?c ?e \<in> set (adjacent g ?c)" by (simp only: s)
  have in_cs: "?s \<in> set ?cs"
    using \<open>?s \<in> set (adjacent g ?c)\<close> snapped_moves [OF ne] by simp
  have "fst (rank_choices ?e ?cs ! 0) = ?s"
  proof (rule rank_choices_unique_min [OF in_cs])
    fix j
    assume "j \<in> set ?cs" "j \<noteq> ?s"
    then have "chebyshev ?c j \<le> 1" by (simp add: adj set_moore9)
    then show "norm_cells ?s ?e < norm_cells j ?e"
      using ne \<open>j \<noteq> ?s\<close> by (rule snapped_is_nearest)
  qed
  moreover from in_cs have "?cs \<noteq> []" by (metis empty_iff empty_set)
  ultimately have "TypeB_shortest_path_between b g = Inr (shortest_path ?c ?e)"
    by (simp add: sp s)
  moreover have "find_best_choice (shortest_path ?c ?e) (adjacent g ?c)
      = Some (shortest_path ?c ?e)"
    using in_adj by (simp add: find_best_choice_eq)
  ultimately show ?thesis by simp
qed

text \<open>
  Wherever it stands, its destination included, a PathFollower that has not moved gets a
  cell of its adjacency list other than its own, as soon as that list holds one: the
  candidates of \<open>shortest_path_between\<close> leave the own cell out.
\<close>

lemma shortest_path_between_other_cell:
  assumes "\<not> moved (agents g b)"
    and "\<not> set (adjacent g (cell (agents g b))) \<subseteq> {cell (agents g b)}"
  shows "\<exists>c. TypeB_shortest_path_between b g = Inr c \<and>
             c \<in> set (adjacent g (cell (agents g b))) \<and> c \<noteq> cell (agents g b)"
proof -
  let ?c = "cell (agents g b)" and ?e = "end_cell (agents g b)"
  let ?cs = "filter (\<lambda>j. j \<noteq> ?c) (adjacent g ?c)"
  have sp: "TypeB_shortest_path_between b g =
              Inr (if ?cs \<noteq> [] then fst (rank_choices ?e ?cs ! 0) else ?c)"
    using assms(1) by (simp add: TypeB_shortest_path_between_def Let_def TypeB_choices)
  from assms(2) have ne: "?cs \<noteq> []" by (auto simp: filter_empty_conv)
  then have "fst (rank_choices ?e ?cs ! 0) \<in> set ?cs" by (rule rank_choices_first_in)
  then have "fst (rank_choices ?e ?cs ! 0) \<in> set (adjacent g ?c)"
    "fst (rank_choices ?e ?cs ! 0) \<noteq> ?c" by auto
  with ne sp show ?thesis by simp
qed

text \<open>The first turn of \<open>two_followers\<close>, phase by phase.\<close>

lemma two_followers_first_cleanup:
  assumes s1: "s1 = phaseA plain_draws two_followers"
  shows "playerAs s1 = []" "playerBs s1 = [''B2'']" "playerCs s1 = []"
    "finishedAs s1 = []" "finishedBs s1 = [''B1'']" "finishedCs s1 = []"
    "adjacent s1 = adjacent two_followers"
    "occupant s1 (1, 0) = None" "occupant s1 (2, 0) = Some ''B2''"
    "agents s1 = agents two_followers"
proof -
  have p: "playerAs two_followers = []" "playerBs two_followers = [''B1'', ''B2'']"
    "playerCs two_followers = []"
    by (simp_all add: two_followers_def)
  have ph: "s1 = clean_up two_followers"
    unfolding s1 by (simp add: phaseA_plain_draws p)
  have b: "scan_pool (arrived two_followers) [''B1'', ''B2''] = ([''B2''], [''B1''])"
    by (rule scan_pool_two_done) (simp_all add: arrived_def two_followers_def)
  have r: "removed two_followers = [''B1'']"
    by (simp add: removed_def p b)
  show "playerAs s1 = []" "playerBs s1 = [''B2'']" "playerCs s1 = []"
    "finishedAs s1 = []" "finishedBs s1 = [''B1'']" "finishedCs s1 = []"
    "adjacent s1 = adjacent two_followers"
    "occupant s1 (1, 0) = None" "occupant s1 (2, 0) = Some ''B2''"
    "agents s1 = agents two_followers"
    unfolding ph
    by (simp_all add: clean_up_pools clean_up_occupant r p b)
      (simp_all add: two_followers_def)
qed

lemma two_followers_move:
  assumes s1: "s1 = phaseA plain_draws two_followers"
  shows "\<exists>s2. for_each (\<lambda>b. TypeB_move (coins plain_draws b) b) (playerBs s1) s1 = Inr s2 \<and>
    playerAs s2 = [] \<and> playerBs s2 = [''B2''] \<and> playerCs s2 = [] \<and>
    cell (agents s2 ''B2'') = (1, 0) \<and> end_cell (agents s2 ''B2'') = (2, 0)"
proof -
  note f = two_followers_first_cleanup [OF s1]
  show ?thesis
    by (simp add: f TypeB_move_def TypeB_shortest_path_between_def find_best_choice_def
        Cell_symbol_def Let_def two_followers_def adjacent_row3)
qed

lemma two_followers_rest:
  assumes s2: "playerAs s2 = []" "playerBs s2 = [''B2'']" "playerCs s2 = []"
    "cell (agents s2 ''B2'') = (1, 0)" "end_cell (agents s2 ''B2'') = (2, 0)"
  shows "playerBs (phaseC plain_draws 0 100 (clean_up s2)) = [''B2'']"
    "cell (agents (phaseC plain_draws 0 100 (clean_up s2)) ''B2'') = (1, 0)"
    "end_cell (agents (phaseC plain_draws 0 100 (clean_up s2)) ''B2'') = (2, 0)"
proof -
  have b: "scan_pool (arrived s2) [''B2''] = ([''B2''], [])"
    by (rule scan_pool_one_kept) (simp add: arrived_def s2)
  define s3 where "s3 = clean_up s2"
  have s3: "playerBs s3 = [''B2'']" "playerCs s3 = []" "agents s3 = agents s2"
    unfolding s3_def by (simp_all add: clean_up_pools s2 b)
  have ph: "phaseC plain_draws 0 100 s3 = clean_up s3"
    by (simp add: phaseC_plain_draws s3)
  have b3: "scan_pool (arrived s3) [''B2''] = ([''B2''], [])"
    by (rule scan_pool_one_kept) (simp add: arrived_def s2 s3)
  show "playerBs (phaseC plain_draws 0 100 (clean_up s2)) = [''B2'']"
    "cell (agents (phaseC plain_draws 0 100 (clean_up s2)) ''B2'') = (1, 0)"
    "end_cell (agents (phaseC plain_draws 0 100 (clean_up s2)) ''B2'') = (2, 0)"
    unfolding s3_def [symmetric] ph by (simp_all add: clean_up_pools s3 s2 b3)
qed

text \<open>
  C5. The claim: the cell a PathFollower prefers when it acts is the cell of
  \<open>shortest_path\<close>, and on its destination that is its own cell. The documentation of Type B
  agrees (they "move towards their destination along the shortest path possible", and
  otherwise "stay put"), and so does \<open>shortest_path\<close>, which returns \<open>a.loc\<close> when the two
  cells are the same. \<open>TypeB.move\<close> does not call \<open>shortest_path\<close> but
  \<open>shortest_path_between\<close>, whose candidates leave the own cell out. In the first turn of
  \<open>two_followers\<close> the cleanup before the PathFollowers' phase removes \<open>B1\<close> and steps over
  \<open>B2\<close> (see C2); \<open>B2\<close> stands on its destination \<open>(2, 0)\<close>, \<open>shortest_path\<close> gives \<open>(2, 0)\<close>,
  \<open>shortest_path_between\<close> gives \<open>(1, 0)\<close>, and \<open>B2\<close> ends the turn on \<open>(1, 0)\<close>, off its
  destination.
\<close>

theorem follower_leaves_destination:
  "playerBs (phaseA plain_draws two_followers) = [''B2''] \<and>
   \<not> moved (agents (phaseA plain_draws two_followers) ''B2'') \<and>
   cell (agents (phaseA plain_draws two_followers) ''B2'') = (2, 0) \<and>
   end_cell (agents (phaseA plain_draws two_followers) ''B2'') = (2, 0) \<and>
   shortest_path (2, 0) (2, 0) = (2, 0) \<and>
   TypeB_shortest_path_between ''B2'' (phaseA plain_draws two_followers) = Inr (1, 0) \<and>
   (\<exists>s. play_turn plain_draws 0 100 two_followers = Inr s \<and>
      playerBs s = [''B2''] \<and> cell (agents s ''B2'') = (1, 0) \<and>
      end_cell (agents s ''B2'') = (2, 0))"
proof -
  define s1 where "s1 = phaseA plain_draws two_followers"
  note f = two_followers_first_cleanup [OF s1_def]
  have a: "\<not> moved (agents s1 ''B2'')" "cell (agents s1 ''B2'') = (2, 0)"
    "end_cell (agents s1 ''B2'') = (2, 0)"
    by (simp_all add: f two_followers_def)
  have sp: "shortest_path (2, 0) (2, 0) = (2, 0)"
    by (simp add: shortest_path_def)
  have sb: "TypeB_shortest_path_between ''B2'' s1 = Inr (1, 0)"
    by (simp add: TypeB_shortest_path_between_def f Cell_symbol_def Let_def two_followers_def
        adjacent_row3)
  obtain s2 where
    fe: "for_each (\<lambda>b. TypeB_move (coins plain_draws b) b) (playerBs s1) s1 = Inr s2"
    and s2: "playerAs s2 = []" "playerBs s2 = [''B2'']" "playerCs s2 = []"
    "cell (agents s2 ''B2'') = (1, 0)" "end_cell (agents s2 ''B2'') = (2, 0)"
    using two_followers_move [OF s1_def] by blast
  have pb: "phaseB plain_draws s1 = Inr (clean_up s2)"
    by (simp add: phaseB_def fe)
  note g = two_followers_rest [OF s2]
  have pt: "play_turn plain_draws 0 100 two_followers =
      Inr (reset_all (phaseC plain_draws 0 100 (clean_up s2)))"
    by (simp add: play_turn_def s1_def [symmetric] pb)
  from a sp sb pt g f(2) show ?thesis
    unfolding s1_def [symmetric] by (simp add: reset_all_fields)
qed

end
